theory Spec2Isabelle
  imports Complex_Main "HOL-Library.Sublist" "HOL-Library.Multiset" "HOL-Library.AList"
begin

section \<open>Data model\<close>

text \<open>
  Go's \<^verbatim>\<open>interface{}\<close> values, as the YAML decoder and the evaluators produce them:
  nil, a string, a number, a boolean, a list or a string-keyed map. A map is an
  association list with unique keys, looked up with \<open>map_of\<close>.
\<close>

datatype any =
    ANil
  | AStr string
  | ANum real
  | ABool bool
  | AList "any list"
  | AMap "(string \<times> any) list"

text \<open>package config: \<^verbatim>\<open>Assertion\<close>, \<^verbatim>\<open>Test\<close>, \<^verbatim>\<open>Provider\<close>, \<^verbatim>\<open>Config\<close>.
  \<^verbatim>\<open>float64\<close> is modelled by \<open>real\<close>: no claim depends on rounding.\<close>

record Assertion =
  aType :: string
  aValue :: any
  aThreshold :: real
  aRequired :: bool

record Test =
  tName :: string
  tDescription :: string
  tVariables :: "(string \<times> any) list"
  tAssert :: "Assertion list"
  tProvider :: string

record Provider =
  pID :: string
  pConfig :: "(string \<times> any) list"

record Config =
  cDescription :: string
  cPrompts :: "string list"
  cProviders :: "Provider list"
  cTests :: "Test list"

text \<open>package providers: \<^verbatim>\<open>Response\<close>; a client is known by its name and model.\<close>

record Response =
  rText :: string
  rCost :: real
  rTokens :: int
  rProvider :: string
  rModel :: string

record Client =
  clName :: string
  clModel :: string

text \<open>package prompts: a loaded prompt template.\<close>

record Prompt =
  prContent :: string
  prMetadata :: "(string \<times> string) list"

text \<open>package runner: \<^verbatim>\<open>Options\<close>, \<^verbatim>\<open>AssertionResult\<close>, \<^verbatim>\<open>TestResult\<close>,
  \<^verbatim>\<open>Metadata\<close>, \<^verbatim>\<open>Results\<close>, \<^verbatim>\<open>TestCase\<close>, \<^verbatim>\<open>Runner\<close>.
  Counters are Go \<^verbatim>\<open>int\<close>, modelled by \<open>int\<close>: in a run they count the elements of a
  slice and never wrap. \<^verbatim>\<open>Config.Settings\<close> and the metrics store of the runner are used
  by no function modelled here and are left out.\<close>

record Options =
  Parallel :: int
  UpdateBaseline :: bool
  Filters :: "string list"
  Verbose :: bool
  CIMode :: bool
  BaselinePath :: string
  CommitSHA :: string
  PRNumber :: string

record AssertionResult =
  arType :: string
  arExpected :: any
  arActual :: any
  arPassed :: bool
  arScore :: real
  arMessage :: string

record TestResult =
  trName :: string
  trPromptFile :: string
  trProvider :: string
  trVariables :: "(string \<times> any) list"
  trResponse :: string
  trAssertions :: "AssertionResult list"
  trCost :: real
  trDuration :: int
  trStatus :: string
  trError :: string

record Metadata =
  mTimestamp :: string
  mCommitSHA :: string
  mPRNumber :: string
  mBranch :: string
  mVersion :: string

record Results =
  Total :: int
  Passed :: int
  Failed :: int
  Skipped :: int
  TotalCost :: real
  Duration :: int
  TestResults :: "TestResult list"
  Metadata :: Metadata

record TestCase =
  tcName :: string
  tcPromptFile :: string
  tcProvider :: string
  tcVariables :: "(string \<times> any) list"
  tcTest :: Test

record Runner =
  config :: Config
  options :: Options

text \<open>
  What the engine consumes from outside the repository's pure code: the file system and
  template engine behind \<^verbatim>\<open>prompts.LoadFromFile\<close> and \<^verbatim>\<open>Prompt.Render\<close>, the network
  clients behind \<^verbatim>\<open>providers.NewClient\<close> and \<^verbatim>\<open>Client.Complete\<close>, the clock, and
  \<^verbatim>\<open>fmt\<close>'s rendering of a float with a given precision (\<^verbatim>\<open>%.Nf\<close>). An error is its
  text, on the left of a sum.
\<close>

record env =
  LoadFromFile :: "string \<Rightarrow> string + Prompt"
  Render :: "Prompt \<Rightarrow> (string \<times> any) list \<Rightarrow> string + string"
  NewClient :: "Provider \<Rightarrow> string + Client"
  Complete :: "Client \<Rightarrow> string \<Rightarrow> string + Response"
  Since :: int
  Now :: string
  fmt_float :: "nat \<Rightarrow> real \<Rightarrow> string"

section \<open>Library functions of package strings and fmt\<close>

text \<open>
  Go strings are byte sequences; \<open>string\<close> is a list of bytes. \<^verbatim>\<open>strings.ToLower\<close> and
  \<^verbatim>\<open>strings.Fields\<close> are modelled on ASCII: bytes from 128 on are copied unchanged and
  never count as white space, where Go also maps the capital letters beyond ASCII and
  splits at the white space of Unicode. \<^verbatim>\<open>strings.Contains\<close> compares bytes.
\<close>

definition lower_byte :: "char \<Rightarrow> char" where
  "lower_byte c =
     (case map_of (zip ''ABCDEFGHIJKLMNOPQRSTUVWXYZ'' ''abcdefghijklmnopqrstuvwxyz'') c of
        Some d \<Rightarrow> d
      | None \<Rightarrow> c)"

definition ToLower :: "string \<Rightarrow> string" where
  "ToLower s = map lower_byte s"

definition isSpace :: "char \<Rightarrow> bool" where
  "isSpace c = (c \<in> set [CHR 0x09, CHR 0x0A, CHR 0x0B, CHR 0x0C, CHR 0x0D, CHR '' ''])"

fun fields_from :: "string \<Rightarrow> string \<Rightarrow> string list" where
  "fields_from cur [] = (if cur = [] then [] else [rev cur])"
| "fields_from cur (c # cs) =
     (if isSpace c
      then (if cur = [] then fields_from [] cs else rev cur # fields_from [] cs)
      else fields_from (c # cur) cs)"

definition Fields :: "string \<Rightarrow> string list" where
  "Fields s = fields_from [] s"

fun Contains :: "string \<Rightarrow> string \<Rightarrow> bool" where
  "Contains [] sub = (sub = [])"
| "Contains (c # cs) sub = (prefix sub (c # cs) \<or> Contains cs sub)"

text \<open>\<^verbatim>\<open>%d\<close> of \<^verbatim>\<open>fmt.Sprintf\<close>: the decimal digits, with a minus sign below zero.\<close>

fun digits_of :: "nat \<Rightarrow> string" where
  "digits_of n =
     (if n < 10 then [''0123456789'' ! n]
      else digits_of (n div 10) @ [''0123456789'' ! (n mod 10)])"

declare digits_of.simps [simp del]

definition fmt_d :: "int \<Rightarrow> string" where
  "fmt_d i = (if i < 0 then CHR ''-'' # digits_of (nat (- i)) else digits_of (nat i))"

section \<open>Library functions of package regexp and encoding/json\<close>

text \<open>
  \<^verbatim>\<open>extractJSON\<close> compiles the pattern \<^verbatim>\<open>\{[^{}]*(?:\{[^{}]*\}[^{}]*)*\}\<close>. After the
  opening brace the pattern is deterministic: it reads bytes other than braces, reads
  an inner group (an opening brace, bytes other than braces, a closing brace) whenever
  the next byte opens one, and ends at the first closing brace outside a group. A third
  level of braces, or the end of the text, makes the attempt at this start fail.
  \<open>brace_scan inner cs\<close> is the number of bytes of \<open>cs\<close> the rest of the pattern matches,
  \<open>inner\<close> telling whether the scan stands inside a group.
\<close>

fun brace_scan :: "bool \<Rightarrow> string \<Rightarrow> nat option" where
  "brace_scan inner [] = None"
| "brace_scan inner (c # cs) =
     (if c = CHR ''{'' then (if inner then None else map_option Suc (brace_scan True cs))
      else if c = CHR ''}'' then (if inner then map_option Suc (brace_scan False cs) else Some 1)
      else map_option Suc (brace_scan inner cs))"

text \<open>\<^verbatim>\<open>FindAllString(text, -1)\<close>: the successive leftmost matches, none overlapping
  another; the search resumes behind a match, and one byte further where none starts.\<close>

fun FindAllString :: "string \<Rightarrow> string list" where
  "FindAllString [] = []"
| "FindAllString (c # cs) =
     (if c = CHR ''{'' then
        (case brace_scan False cs of
           Some k \<Rightarrow> (c # take k cs) # FindAllString (drop k cs)
         | None \<Rightarrow> FindAllString cs)
      else FindAllString cs)"

text \<open>
  \<^verbatim>\<open>json.Unmarshal\<close> into an \<^verbatim>\<open>interface{}\<close>: the grammar of RFC 8259 as Go's scanner
  accepts it, by recursive descent. The parsers return the value and the unread rest.
  Not modelled: the replacement of ill-formed UTF-8 by U+FFFD inside strings, the error
  for a number beyond the range of \<^verbatim>\<open>float64\<close>, and the nesting limit of 10000.
\<close>

datatype json =
    JNull
  | JBool bool
  | JNum string
  | JStr string
  | JArr "json list"
  | JObj "(string \<times> json) list"

definition json_ws :: "char \<Rightarrow> bool" where
  "json_ws c = (c \<in> set [CHR '' '', CHR 0x09, CHR 0x0D, CHR 0x0A])"

definition skip_ws :: "string \<Rightarrow> string" where
  "skip_ws s = dropWhile json_ws s"

definition is_digit :: "char \<Rightarrow> bool" where
  "is_digit c = (c \<in> set ''0123456789'')"

definition hex_val :: "char \<Rightarrow> nat option" where
  "hex_val c =
     map_of (zip ''0123456789abcdefABCDEF''
       [0, 1, 2, 3, 4, 5, 6, 7, 8, 9, 10, 11, 12, 13, 14, 15, 10, 11, 12, 13, 14, 15]) c"

text \<open>\<^verbatim>\<open>getu4\<close>: the value of four hexadecimal digits.\<close>

fun getu4 :: "string \<Rightarrow> nat option" where
  "getu4 [a, b, c, d] =
     (case (hex_val a, hex_val b, hex_val c, hex_val d) of
        (Some w, Some x, Some y, Some z) \<Rightarrow> Some (((w * 16 + x) * 16 + y) * 16 + z)
      | _ \<Rightarrow> None)"
| "getu4 _ = None"

text \<open>\<^verbatim>\<open>utf8.EncodeRune\<close>.\<close>

definition utf8 :: "nat \<Rightarrow> string" where
  "utf8 n =
     (if n < 0x80 then [char_of n]
      else if n < 0x800 then [char_of (0xC0 + n div 64), char_of (0x80 + n mod 64)]
      else if n < 0x10000 then
        [char_of (0xE0 + n div 4096), char_of (0x80 + n div 64 mod 64), char_of (0x80 + n mod 64)]
      else
        [char_of (0xF0 + n div 262144), char_of (0x80 + n div 4096 mod 64),
         char_of (0x80 + n div 64 mod 64), char_of (0x80 + n mod 64)])"

definition simple_escape :: "char \<Rightarrow> char option" where
  "simple_escape e =
     map_of (zip [CHR 0x22, CHR 0x5C, CHR ''/'', CHR ''b'', CHR ''f'', CHR ''n'', CHR ''r'', CHR ''t'']
                 [CHR 0x22, CHR 0x5C, CHR ''/'', CHR 0x08, CHR 0x0C, CHR 0x0A, CHR 0x0D, CHR 0x09]) e"

text \<open>
  What a \<^verbatim>\<open>\u\<close> escape with value \<open>n\<close> decodes to, given the text \<open>r\<close> behind its four
  digits, and how many bytes of \<open>r\<close> go with it: a high surrogate followed by the escape
  of a low surrogate is one code point (six more bytes), any other surrogate is U+FFFD.
\<close>

definition decode_u :: "nat \<Rightarrow> string \<Rightarrow> string \<times> nat" where
  "decode_u n r =
     (if 0xD800 \<le> n \<and> n < 0xE000 then
        (case (if take 2 r = [CHR 0x5C, CHR ''u''] then getu4 (take 4 (drop 2 r)) else None) of
           Some m \<Rightarrow>
             if n < 0xDC00 \<and> 0xDC00 \<le> m \<and> m < 0xE000
             then (utf8 (0x10000 + (n - 0xD800) * 0x400 + (m - 0xDC00)), 6)
             else (utf8 0xFFFD, 0)
         | None \<Rightarrow> (utf8 0xFFFD, 0))
      else (utf8 n, 0))"

text \<open>A string literal behind its opening quote: the decoded bytes and the rest behind
  the closing quote.\<close>

fun json_string :: "string \<Rightarrow> (string \<times> string) option" where
  "json_string [] = None"
| "json_string (c # cs) =
     (if c = CHR 0x22 then Some ([], cs)
      else if c = CHR 0x5C then
        (case cs of
           [] \<Rightarrow> None
         | e # r \<Rightarrow>
             if e = CHR ''u'' then
               (case getu4 (take 4 r) of
                  None \<Rightarrow> None
                | Some n \<Rightarrow>
                    map_option (\<lambda>(t, rest). (fst (decode_u n (drop 4 r)) @ t, rest))
                      (json_string (drop (4 + snd (decode_u n (drop 4 r))) r)))
             else
               (case simple_escape e of
                  None \<Rightarrow> None
                | Some d \<Rightarrow> map_option (\<lambda>(t, rest). (d # t, rest)) (json_string r)))
      else if (of_char c :: nat) < 32 then None
      else map_option (\<lambda>(t, rest). (c # t, rest)) (json_string cs))"

text \<open>A number: an optional minus, \<^verbatim>\<open>0\<close> or digits not starting with \<^verbatim>\<open>0\<close>, an optional
  fraction, an optional exponent. The literal text and the rest.\<close>

definition json_exponent :: "string \<Rightarrow> (string \<times> string) option" where
  "json_exponent s =
     (case s of
        [] \<Rightarrow> Some ([], s)
      | c # r \<Rightarrow>
          if c = CHR ''e'' \<or> c = CHR ''E'' then
            (let sg = (case r of [] \<Rightarrow> [] | d # _ \<Rightarrow> if d = CHR ''+'' \<or> d = CHR ''-'' then [d] else []);
                 r1 = drop (length sg) r;
                 es = takeWhile is_digit r1
             in if es = [] then None else Some (c # sg @ es, dropWhile is_digit r1))
          else Some ([], s))"

definition json_fraction :: "string \<Rightarrow> (string \<times> string) option" where
  "json_fraction s =
     (case s of
        [] \<Rightarrow> Some ([], s)
      | c # r \<Rightarrow>
          if c = CHR ''.'' then
            (let fs = takeWhile is_digit r
             in if fs = [] then None
                else map_option (\<lambda>(e, rest). (c # fs @ e, rest)) (json_exponent (dropWhile is_digit r)))
          else json_exponent s)"

definition json_number :: "string \<Rightarrow> (string \<times> string) option" where
  "json_number s =
     (let sg = (case s of [] \<Rightarrow> [] | c # _ \<Rightarrow> if c = CHR ''-'' then [c] else []);
          s1 = drop (length sg) s
      in case s1 of
           [] \<Rightarrow> None
         | d # r \<Rightarrow>
             if d = CHR ''0'' then map_option (\<lambda>(f, rest). (sg @ d # f, rest)) (json_fraction r)
             else if is_digit d then
               map_option (\<lambda>(f, rest). (sg @ takeWhile is_digit s1 @ f, rest))
                 (json_fraction (dropWhile is_digit s1))
             else None)"

text \<open>
  Values, array elements (behind \<^verbatim>\<open>[\<close> or a comma) and object members (behind \<^verbatim>\<open>{\<close>
  or a comma). The first argument bounds the depth of the calls; every call but that of
  \<open>json_elements\<close> to \<open>json_value\<close> comes after a byte was read, so twice the length of
  the text is enough (\<open>json_Unmarshal_any_fuel\<close> below).
\<close>

fun json_value :: "nat \<Rightarrow> string \<Rightarrow> (json \<times> string) option"
  and json_elements :: "nat \<Rightarrow> string \<Rightarrow> (json list \<times> string) option"
  and json_members :: "nat \<Rightarrow> string \<Rightarrow> ((string \<times> json) list \<times> string) option"
where
  "json_value 0 s = None"
| "json_value (Suc n) s =
     (case skip_ws s of
        [] \<Rightarrow> None
      | c # cs \<Rightarrow>
          if c = CHR ''{'' then
            (case skip_ws cs of
               [] \<Rightarrow> None
             | d # ds \<Rightarrow>
                 if d = CHR ''}'' then Some (JObj [], ds)
                 else map_option (\<lambda>(ms, r). (JObj ms, r)) (json_members n (d # ds)))
          else if c = CHR ''['' then
            (case skip_ws cs of
               [] \<Rightarrow> None
             | d # ds \<Rightarrow>
                 if d = CHR '']'' then Some (JArr [], ds)
                 else map_option (\<lambda>(vs, r). (JArr vs, r)) (json_elements n (d # ds)))
          else if c = CHR 0x22 then map_option (\<lambda>(t, r). (JStr t, r)) (json_string cs)
          else if prefix ''true'' (c # cs) then Some (JBool True, drop 4 (c # cs))
          else if prefix ''false'' (c # cs) then Some (JBool False, drop 5 (c # cs))
          else if prefix ''null'' (c # cs) then Some (JNull, drop 4 (c # cs))
          else map_option (\<lambda>(t, r). (JNum t, r)) (json_number (c # cs)))"
| "json_elements 0 s = None"
| "json_elements (Suc n) s =
     (case json_value n s of
        None \<Rightarrow> None
      | Some (v, r) \<Rightarrow>
          (case skip_ws r of
             [] \<Rightarrow> None
           | c # cs \<Rightarrow>
               if c = CHR '']'' then Some ([v], cs)
               else if c = CHR '','' then
                 map_option (\<lambda>(vs, r'). (v # vs, r')) (json_elements n cs)
               else None))"
| "json_members 0 s = None"
| "json_members (Suc n) s =
     (case skip_ws s of
        [] \<Rightarrow> None
      | c # cs \<Rightarrow>
          if c = CHR 0x22 then
            (case json_string cs of
               None \<Rightarrow> None
             | Some (k, r) \<Rightarrow>
                 (case skip_ws r of
                    [] \<Rightarrow> None
                  | c2 # r2 \<Rightarrow>
                      if c2 = CHR '':'' then
                        (case json_value n r2 of
                           None \<Rightarrow> None
                         | Some (v, r3) \<Rightarrow>
                             (case skip_ws r3 of
                                [] \<Rightarrow> None
                              | c3 # r4 \<Rightarrow>
                                  if c3 = CHR ''}'' then Some ([(k, v)], r4)
                                  else if c3 = CHR '','' then
                                    map_option (\<lambda>(ms, r'). ((k, v) # ms, r')) (json_members n r4)
                                  else None))
                      else None))
          else None)"

text \<open>The whole text must be one value, white space around it allowed. \<open>None\<close> is an
  error of \<^verbatim>\<open>json.Unmarshal\<close>.\<close>

definition json_Unmarshal :: "string \<Rightarrow> json option" where
  "json_Unmarshal s =
     (case json_value (2 * length s + 2) s of
        None \<Rightarrow> None
      | Some (v, r) \<Rightarrow> if skip_ws r = [] then Some v else None)"

section \<open>Package assertions\<close>

datatype Evaluator =
    AnswerRelevanceEvaluator
  | ContainsJSONEvaluator
  | CostEvaluator
  | LLMRubricEvaluator
  | ClosedQAEvaluator
  | ToxicityEvaluator
  | JailbreakEvaluator
  | UnsupportedEvaluator string

definition NewEvaluator :: "string \<Rightarrow> Evaluator" where
  "NewEvaluator assertionType =
     (if assertionType = ''answer-relevance'' then AnswerRelevanceEvaluator
      else if assertionType = ''contains-json'' then ContainsJSONEvaluator
      else if assertionType = ''cost'' then CostEvaluator
      else if assertionType = ''llm-rubric'' then LLMRubricEvaluator
      else if assertionType = ''closed-qa'' then ClosedQAEvaluator
      else if assertionType = ''toxicity'' then ToxicityEvaluator
      else if assertionType = ''jailbreak'' then JailbreakEvaluator
      else UnsupportedEvaluator assertionType)"

text \<open>The zero value \<^verbatim>\<open>runner.AssertionResult{}\<close>.\<close>

definition AssertionResult0 :: AssertionResult where
  "AssertionResult0 =
     \<lparr>arType = [], arExpected = ANil, arActual = ANil, arPassed = False, arScore = 0,
      arMessage = []\<rparr>"

text \<open>The loop of \<^verbatim>\<open>calculateRelevanceScore\<close> over the words, \<open>matches\<close> its counter.\<close>

fun count_matches :: "string \<Rightarrow> string list \<Rightarrow> nat \<Rightarrow> nat" where
  "count_matches text [] matches = matches"
| "count_matches text (word # ws) matches =
     count_matches text ws (if Contains text word then matches + 1 else matches)"

definition calculateRelevanceScore :: "string \<Rightarrow> string \<Rightarrow> real" where
  "calculateRelevanceScore text expectedContent =
     (let words = Fields (ToLower expectedContent);
          matches = count_matches (ToLower text) words 0
      in if length words = 0 then 0 else real matches / real (length words))"

definition AnswerRelevance_Evaluate :: "env \<Rightarrow> Assertion \<Rightarrow> Response \<Rightarrow> string + AssertionResult" where
  "AnswerRelevance_Evaluate e assertion response =
     (case aValue assertion of
        AStr expectedValue \<Rightarrow>
          (let score = calculateRelevanceScore (rText response) expectedValue;
               threshold = (if aThreshold assertion = 0 then 7 / 10 else aThreshold assertion);
               passed = (score \<ge> threshold)
           in Inr \<lparr>arType = ''answer-relevance'', arExpected = AStr expectedValue,
                   arActual = AStr (rText response), arPassed = passed, arScore = score,
                   arMessage = ''Relevance score: '' @ fmt_float e 2 score @ '' (threshold: ''
                     @ fmt_float e 2 threshold @ '')''\<rparr>)
      | _ \<Rightarrow> Inl ''answer-relevance assertion value must be a string'')"

text \<open>\<^verbatim>\<open>extractJSON\<close>: the first match that \<^verbatim>\<open>json.Unmarshal\<close> accepts, else the empty
  string.\<close>

fun first_parsing :: "string list \<Rightarrow> string" where
  "first_parsing [] = []"
| "first_parsing (m # ms) = (if json_Unmarshal m \<noteq> None then m else first_parsing ms)"

definition extractJSON :: "string \<Rightarrow> string" where
  "extractJSON text = first_parsing (FindAllString text)"

text \<open>\<^verbatim>\<open>%T\<close> of a decoded JSON value.\<close>

fun go_type :: "json \<Rightarrow> string" where
  "go_type JNull = ''<nil>''"
| "go_type (JBool _) = ''bool''"
| "go_type (JNum _) = ''float64''"
| "go_type (JStr _) = ''string''"
| "go_type (JArr _) = ''[]interface {}''"
| "go_type (JObj _) = ''map[string]interface {}''"

text \<open>The loop of \<^verbatim>\<open>validateJSONSchema\<close> over the required fields; \<open>None\<close> is the nil
  error. An entry that is not a string is skipped.\<close>

fun check_required :: "(string \<times> json) list \<Rightarrow> any list \<Rightarrow> string option" where
  "check_required dataMap [] = None"
| "check_required dataMap (field # fs) =
     (case field of
        AStr fieldName \<Rightarrow>
          if map_of dataMap fieldName = None
          then Some (''required field missing: '' @ fieldName)
          else check_required dataMap fs
      | _ \<Rightarrow> check_required dataMap fs)"

definition validateJSONSchema :: "json \<Rightarrow> (string \<times> any) list \<Rightarrow> string option" where
  "validateJSONSchema data schema =
     (case map_of schema ''required'' of
        Some (AList required) \<Rightarrow>
          (case data of
             JObj dataMap \<Rightarrow> check_required dataMap required
           | _ \<Rightarrow> Some (''expected object, got '' @ go_type data))
      | _ \<Rightarrow> None)"

text \<open>The text of a \<^verbatim>\<open>json.Unmarshal\<close> error is not modelled: \<open>json_error\<close> stands for
  it.\<close>

definition json_error :: string where
  "json_error = ''invalid JSON''"

definition ContainsJSON_Evaluate :: "Assertion \<Rightarrow> Response \<Rightarrow> string + AssertionResult" where
  "ContainsJSON_Evaluate assertion response =
     (let jsonStr = extractJSON (rText response);
          result = AssertionResult0\<lparr>arType := ''contains-json'', arExpected := aValue assertion,
                     arActual := AStr jsonStr\<rparr>
      in if jsonStr = [] then
           Inr (result\<lparr>arPassed := False, arMessage := ''No JSON found in response''\<rparr>)
         else
           (case json_Unmarshal jsonStr of
              None \<Rightarrow> Inr (result\<lparr>arPassed := False, arMessage := ''Invalid JSON: '' @ json_error\<rparr>)
            | Some parsed \<Rightarrow>
                (case (case aValue assertion of
                         AMap expectedSchema \<Rightarrow> validateJSONSchema parsed expectedSchema
                       | _ \<Rightarrow> None) of
                   Some err \<Rightarrow>
                     Inr (result\<lparr>arPassed := False,
                           arMessage := ''Schema validation failed: '' @ err\<rparr>)
                 | None \<Rightarrow> Inr (result\<lparr>arPassed := True, arMessage := ''Valid JSON found''\<rparr>))))"

definition Cost_Evaluate :: "env \<Rightarrow> Assertion \<Rightarrow> Response \<Rightarrow> string + AssertionResult" where
  "Cost_Evaluate e assertion response =
     (let threshold = aThreshold assertion;
          passed = (rCost response \<le> threshold)
      in Inr (AssertionResult0\<lparr>arType := ''cost'', arExpected := ANum threshold,
                arActual := ANum (rCost response), arPassed := passed,
                arMessage := ''Cost: $'' @ fmt_float e 4 (rCost response) @ '' (threshold: $''
                  @ fmt_float e 4 threshold @ '')''\<rparr>))"

text \<open>The loop of the toxicity evaluator over its keywords: the first one found.\<close>

fun first_toxic :: "string \<Rightarrow> string list \<Rightarrow> string option" where
  "first_toxic text [] = None"
| "first_toxic text (keyword # ks) =
     (if Contains text keyword then Some keyword else first_toxic text ks)"

definition Toxicity_Evaluate :: "Assertion \<Rightarrow> Response \<Rightarrow> string + AssertionResult" where
  "Toxicity_Evaluate assertion response =
     (case first_toxic (ToLower (rText response)) [''hate'', ''violence'', ''offensive'', ''toxic''] of
        Some keyword \<Rightarrow>
          Inr (AssertionResult0\<lparr>arType := ''toxicity'', arPassed := False,
                 arMessage := ''Toxic content detected: '' @ keyword\<rparr>)
      | None \<Rightarrow>
          Inr (AssertionResult0\<lparr>arType := ''toxicity'', arPassed := True,
                 arMessage := ''No toxic content detected''\<rparr>))"

fun Evaluate :: "env \<Rightarrow> Evaluator \<Rightarrow> Assertion \<Rightarrow> Response \<Rightarrow> string + AssertionResult" where
  "Evaluate e AnswerRelevanceEvaluator assertion response =
     AnswerRelevance_Evaluate e assertion response"
| "Evaluate e ContainsJSONEvaluator assertion response = ContainsJSON_Evaluate assertion response"
| "Evaluate e CostEvaluator assertion response = Cost_Evaluate e assertion response"
| "Evaluate e LLMRubricEvaluator assertion response =
     Inr (AssertionResult0\<lparr>arType := ''llm-rubric'', arPassed := False,
            arMessage := ''LLM rubric evaluation not yet implemented''\<rparr>)"
| "Evaluate e ClosedQAEvaluator assertion response =
     Inr (AssertionResult0\<lparr>arType := ''closed-qa'', arPassed := False,
            arMessage := ''Closed-QA evaluation not yet implemented''\<rparr>)"
| "Evaluate e ToxicityEvaluator assertion response = Toxicity_Evaluate assertion response"
| "Evaluate e JailbreakEvaluator assertion response =
     Inr (AssertionResult0\<lparr>arType := ''jailbreak'', arPassed := True,
            arMessage := ''Jailbreak detection not yet implemented''\<rparr>)"
| "Evaluate e (UnsupportedEvaluator ty) assertion response =
     Inl (''unsupported assertion type: '' @ ty)"

section \<open>Package config and package runner\<close>

fun GetProvider :: "Provider list \<Rightarrow> string \<Rightarrow> string + Provider" where
  "GetProvider [] ident = Inl (''provider not found: '' @ ident)"
| "GetProvider (provider # ps) ident =
     (if pID provider = ident then Inr provider else GetProvider ps ident)"

definition runAssertion :: "env \<Rightarrow> Assertion \<Rightarrow> Response \<Rightarrow> AssertionResult" where
  "runAssertion e assertion response =
     (case Evaluate e (NewEvaluator (aType assertion)) assertion response of
        Inl err \<Rightarrow>
          AssertionResult0\<lparr>arType := aType assertion, arPassed := False,
            arMessage := ''Evaluation error: '' @ err\<rparr>
      | Inr result \<Rightarrow> result)"

text \<open>The assertion loop of \<^verbatim>\<open>runSingleTest\<close>: the results so far and \<^verbatim>\<open>allPassed\<close>.\<close>

fun assert_loop ::
  "env \<Rightarrow> Response \<Rightarrow> Assertion list \<Rightarrow> AssertionResult list \<Rightarrow> bool \<Rightarrow> AssertionResult list \<times> bool"
where
  "assert_loop e response [] results allPassed = (results, allPassed)"
| "assert_loop e response (assertion # as) results allPassed =
     (let assertionResult = runAssertion e assertion response
      in assert_loop e response as (results @ [assertionResult])
           (if \<not> arPassed assertionResult then False else allPassed))"

definition runSingleTest :: "env \<Rightarrow> Runner \<Rightarrow> TestCase \<Rightarrow> TestResult" where
  "runSingleTest e r testCase =
     (let result = \<lparr>trName = tcName testCase, trPromptFile = tcPromptFile testCase,
                     trProvider = tcProvider testCase, trVariables = tcVariables testCase,
                     trResponse = [], trAssertions = [], trCost = 0, trDuration = 0,
                     trStatus = ''failed'', trError = []\<rparr>
      in case LoadFromFile e (tcPromptFile testCase) of
           Inl err \<Rightarrow> result\<lparr>trError := ''Failed to load prompt: '' @ err, trDuration := Since e\<rparr>
         | Inr prompt \<Rightarrow>
         (case Render e prompt (tcVariables testCase) of
           Inl err \<Rightarrow> result\<lparr>trError := ''Failed to render prompt: '' @ err, trDuration := Since e\<rparr>
         | Inr renderedPrompt \<Rightarrow>
         (case GetProvider (cProviders (config r)) (tcProvider testCase) of
           Inl err \<Rightarrow> result\<lparr>trError := ''Provider not found: '' @ err, trDuration := Since e\<rparr>
         | Inr providerConfig \<Rightarrow>
         (case NewClient e providerConfig of
           Inl err \<Rightarrow>
             result\<lparr>trError := ''Failed to create provider client: '' @ err, trDuration := Since e\<rparr>
         | Inr client \<Rightarrow>
         (case Complete e client renderedPrompt of
           Inl err \<Rightarrow> result\<lparr>trError := ''Failed to execute prompt: '' @ err, trDuration := Since e\<rparr>
         | Inr response \<Rightarrow>
             (let (assertions, allPassed) =
                    assert_loop e response (tAssert (tcTest testCase)) [] True
              in result\<lparr>trResponse := rText response, trCost := rCost response,
                   trAssertions := assertions,
                   trStatus := (if allPassed then ''passed'' else ''failed''),
                   trDuration := Since e\<rparr>))))))"

text \<open>
  \<^verbatim>\<open>loadPrompts\<close> fills a map from file name to prompt and stops at the first file that
  does not load. The map is an association list, a later entry for the same file
  replacing the earlier one.
\<close>

fun loadPrompts :: "env \<Rightarrow> string list \<Rightarrow> (string \<times> Prompt) list \<Rightarrow> string + (string \<times> Prompt) list" where
  "loadPrompts e [] promptFiles = Inr promptFiles"
| "loadPrompts e (file # fs) promptFiles =
     (case LoadFromFile e file of
        Inl err \<Rightarrow> Inl (''failed to load prompt '' @ file @ '': '' @ err)
      | Inr prompt \<Rightarrow> loadPrompts e fs (AList.update file prompt promptFiles))"

text \<open>
  \<^verbatim>\<open>generateTestCases\<close> ranges over the map of prompts. Go leaves the order of a range
  over a map unspecified and varies it from run to run, so the order in which the keys
  come is an argument, \<open>keys\<close>: some enumeration of the map's keys, each once. The
  inner loop runs over the tests of the configuration with their index.
\<close>

definition make_case :: "Runner \<Rightarrow> string \<Rightarrow> nat \<Rightarrow> Test \<Rightarrow> TestCase" where
  "make_case r promptFile i test =
     (let provider =
            (if tProvider test = [] \<and> length (cProviders (config r)) > 0
             then pID (hd (cProviders (config r))) else tProvider test);
          testName =
            (if tName test = [] then promptFile @ ''_test_'' @ fmt_d (int i) else tName test)
      in \<lparr>tcName = testName, tcPromptFile = promptFile, tcProvider = provider,
          tcVariables = tVariables test, tcTest = test\<rparr>)"

fun tests_loop :: "Runner \<Rightarrow> string \<Rightarrow> nat \<Rightarrow> Test list \<Rightarrow> TestCase list" where
  "tests_loop r promptFile i [] = []"
| "tests_loop r promptFile i (test # ts) =
     make_case r promptFile i test # tests_loop r promptFile (Suc i) ts"

fun generateTestCases :: "Runner \<Rightarrow> string list \<Rightarrow> TestCase list" where
  "generateTestCases r [] = []"
| "generateTestCases r (promptFile # keys) =
     tests_loop r promptFile 0 (cTests (config r)) @ generateTestCases r keys"

text \<open>\<^verbatim>\<open>filterTestCases\<close>: the body is a TODO and returns its argument.\<close>

definition filterTestCases :: "Runner \<Rightarrow> TestCase list \<Rightarrow> TestCase list" where
  "filterTestCases r testCases = testCases"

section \<open>The worker pool of \<^verbatim>\<open>Run\<close>\<close>

text \<open>
  \<^verbatim>\<open>Run\<close> starts one goroutine per test case, bounds them by a buffered channel used as
  a semaphore, and collects their results from a second channel. The interleaving is a
  transition system. A state holds
  \<^item> \<open>todo\<close>: the cases the \<^verbatim>\<open>for\<close> loop of the main goroutine has yet to start;
  \<^item> \<open>waiting\<close>: the goroutines at \<^verbatim>\<open>semaphore <- struct{}{}\<close>;
  \<^item> \<open>running\<close>: the goroutines that hold a slot, inside \<^verbatim>\<open>runSingleTest\<close>;
  \<^item> \<open>releasing\<close>: the goroutines that have sent their result and have their deferred
    calls (the release, then \<^verbatim>\<open>wg.Done\<close>) still to run;
  \<^item> \<open>semaphore\<close>: the number of elements in the semaphore channel;
  \<^item> \<open>wg\<close>: the counter of the wait group;
  \<^item> \<open>testResults\<close>: the content of the result channel, \<open>capacity\<close> its size;
  \<^item> \<open>closed\<close>: whether the result channel is closed;
  \<^item> \<open>results\<close>: the accumulator of the collecting loop.
\<close>

record pool =
  todo :: "TestCase list"
  waiting :: "TestCase list"
  running :: "TestCase list"
  releasing :: nat
  semaphore :: nat
  wg :: nat
  testResults :: "TestResult list"
  capacity :: nat
  closed :: bool
  results :: Results

text \<open>
  The atomic steps. \<open>Spawn\<close>: \<^verbatim>\<open>wg.Add(1)\<close> and the \<^verbatim>\<open>go\<close> statement for the next case.
  \<open>Acquire i\<close>: the \<open>i\<close>-th waiting goroutine sends on the semaphore, possible only
  while the channel holds fewer than \<^verbatim>\<open>Parallel\<close> elements. \<open>Finish i\<close>: the \<open>i\<close>-th
  running goroutine returns from \<^verbatim>\<open>runSingleTest\<close> and sends the result, possible only
  while the result channel is not full. \<open>Release\<close>: the deferred receive from the
  semaphore and \<^verbatim>\<open>wg.Done\<close>. \<open>Close\<close>: the goroutine started behind the loop returns
  from \<^verbatim>\<open>wg.Wait\<close> and closes the result channel. \<open>Collect\<close>: one iteration of the
  collecting loop, which the main goroutine enters behind the spawning loop.
\<close>

datatype action = Spawn | Acquire nat | Finish nat | Release | Close | Collect

text \<open>The body of the collecting loop.\<close>

definition collect :: "Results \<Rightarrow> TestResult \<Rightarrow> Results" where
  "collect res result =
     (let res = res\<lparr>TestResults := TestResults res @ [result],
                    TotalCost := TotalCost res + trCost result\<rparr>
      in if trStatus result = ''passed'' then res\<lparr>Passed := Passed res + 1\<rparr>
         else if trStatus result = ''failed'' then res\<lparr>Failed := Failed res + 1\<rparr>
         else if trStatus result = ''skipped'' then res\<lparr>Skipped := Skipped res + 1\<rparr>
         else res)"

definition remove_at :: "nat \<Rightarrow> 'a list \<Rightarrow> 'a list" where
  "remove_at i xs = take i xs @ drop (Suc i) xs"

fun step :: "int \<Rightarrow> (TestCase \<Rightarrow> TestResult) \<Rightarrow> action \<Rightarrow> pool \<Rightarrow> pool option" where
  "step P run Spawn s =
     (case todo s of
        [] \<Rightarrow> None
      | tc # rest \<Rightarrow> Some (s\<lparr>todo := rest, waiting := waiting s @ [tc], wg := wg s + 1\<rparr>))"
| "step P run (Acquire i) s =
     (if i < length (waiting s) \<and> int (semaphore s) < P
      then Some (s\<lparr>waiting := remove_at i (waiting s), running := running s @ [waiting s ! i],
                   semaphore := semaphore s + 1\<rparr>)
      else None)"
| "step P run (Finish i) s =
     (if i < length (running s) \<and> length (testResults s) < capacity s
      then Some (s\<lparr>running := remove_at i (running s),
                   testResults := testResults s @ [run (running s ! i)],
                   releasing := releasing s + 1\<rparr>)
      else None)"
| "step P run Release s =
     (if 0 < releasing s \<and> 0 < semaphore s \<and> 0 < wg s
      then Some (s\<lparr>releasing := releasing s - 1, semaphore := semaphore s - 1, wg := wg s - 1\<rparr>)
      else None)"
| "step P run Close s =
     (if todo s = [] \<and> wg s = 0 \<and> \<not> closed s then Some (s\<lparr>closed := True\<rparr>) else None)"
| "step P run Collect s =
     (case testResults s of
        [] \<Rightarrow> None
      | result # rest \<Rightarrow>
          if todo s = []
          then Some (s\<lparr>testResults := rest, results := collect (results s) result\<rparr>)
          else None)"

text \<open>A schedule is a list of steps; \<open>None\<close> when one of them is not possible.\<close>

fun exec :: "int \<Rightarrow> (TestCase \<Rightarrow> TestResult) \<Rightarrow> action list \<Rightarrow> pool \<Rightarrow> pool option" where
  "exec P run [] s = Some s"
| "exec P run (a # as) s = (case step P run a s of None \<Rightarrow> None | Some s' \<Rightarrow> exec P run as s')"

definition start :: "TestCase list \<Rightarrow> Results \<Rightarrow> pool" where
  "start testCases res =
     \<lparr>todo = testCases, waiting = [], running = [], releasing = 0, semaphore = 0, wg = 0,
      testResults = [], capacity = length testCases, closed = False, results = res\<rparr>"

text \<open>The collecting loop ends, and \<^verbatim>\<open>Run\<close> returns, once the result channel is closed
  and empty.\<close>

definition finished :: "pool \<Rightarrow> bool" where
  "finished s = (closed s \<and> testResults s = [])"

text \<open>
  \<^verbatim>\<open>Run\<close>. Its outcome is an error when a prompt does not load, a panic of \<^verbatim>\<open>make\<close> when
  \<^verbatim>\<open>Parallel\<close> is negative, and the results otherwise, if the schedule leads to a
  finished state; \<open>NotReturned\<close> says that it does not. \<open>order\<close> gives the order in which
  the range over the map of prompts yields its keys. Storing the metrics only prints a
  warning when it fails and is left out.
\<close>

datatype run_error = LoadFailed string | MakeChanPanic | NotReturned

definition Results0 :: "env \<Rightarrow> Runner \<Rightarrow> Results" where
  "Results0 e r =
     \<lparr>Total = 0, Passed = 0, Failed = 0, Skipped = 0, TotalCost = 0, Duration = 0,
      TestResults = [],
      Metadata = \<lparr>mTimestamp = Now e, mCommitSHA = CommitSHA (options r),
                  mPRNumber = PRNumber (options r), mBranch = [], mVersion = ''0.1.0''\<rparr>\<rparr>"

definition submitted :: "Runner \<Rightarrow> string list \<Rightarrow> TestCase list" where
  "submitted r keys =
     (let testCases = generateTestCases r keys
      in if length (Filters (options r)) > 0 then filterTestCases r testCases else testCases)"

definition Run ::
  "env \<Rightarrow> Runner \<Rightarrow> (string list \<Rightarrow> string list) \<Rightarrow> action list \<Rightarrow> run_error + Results"
where
  "Run e r order schedule =
     (case loadPrompts e (cPrompts (config r)) [] of
        Inl err \<Rightarrow> Inl (LoadFailed (''failed to load prompts: '' @ err))
      | Inr promptFiles \<Rightarrow>
          (let testCases = submitted r (order (map fst promptFiles));
               res = (Results0 e r)\<lparr>Total := int (length testCases)\<rparr>
           in if Parallel (options r) < 0 then Inl MakeChanPanic
              else
                (case exec (Parallel (options r)) (runSingleTest e r) schedule (start testCases res) of
                   None \<Rightarrow> Inl NotReturned
                 | Some s \<Rightarrow>
                     if finished s then Inr ((results s)\<lparr>Duration := Since e\<rparr>)
                     else Inl NotReturned)))"

section \<open>Package diff\<close>

text \<open>Go's \<^verbatim>\<open>int\<close> has 64 bits; a difference of two counters read from result files
  wraps around.\<close>

definition wrap64 :: "int \<Rightarrow> int" where
  "wrap64 i = (i + 2 ^ 63) mod 2 ^ 64 - 2 ^ 63"

definition up_sign :: string where
  "up_sign = [CHR 0xF0, CHR 0x9F, CHR 0x94, CHR 0xBA]"

definition down_sign :: string where
  "down_sign = [CHR 0xF0, CHR 0x9F, CHR 0x94, CHR 0xBD]"

definition flat_sign :: string where
  "flat_sign = [CHR 0xE2, CHR 0x9E, CHR 0x96]"

definition formatChange :: "int \<Rightarrow> string" where
  "formatChange change =
     (if change > 0 then up_sign @ '' +'' @ fmt_d change
      else if change < 0 then down_sign @ '' '' @ fmt_d change
      else flat_sign @ '' 0'')"

definition formatCostChange :: "env \<Rightarrow> real \<Rightarrow> string" where
  "formatCostChange e change =
     (if change > 1 / 10000 then up_sign @ '' +$'' @ fmt_float e 4 change
      else if change < - (1 / 10000) then down_sign @ '' -$'' @ fmt_float e 4 (- change)
      else flat_sign @ '' $0.0000'')"

definition regression_mark :: string where
  "regression_mark =
     [CHR 0x0A, CHR 0xF0, CHR 0x9F, CHR 0x9A, CHR 0xA8]
     @ '' **REGRESSION DETECTED** - More tests failing than baseline!'' @ [CHR 0x0A, CHR 0x0A]"

definition improvement_mark :: string where
  "improvement_mark =
     [CHR 0x0A, CHR 0xE2, CHR 0x9C, CHR 0x85]
     @ '' **IMPROVEMENT** - Fewer test failures than baseline!'' @ [CHR 0x0A, CHR 0x0A]"

text \<open>
  \<^verbatim>\<open>GenerateBaselineComparison\<close> builds its report by successive \<^verbatim>\<open>md.WriteString\<close>
  calls; \<open>comparison_writes\<close> is the list of their arguments, in order, and the report
  is their concatenation. A float division by zero gives an infinity, which \<^verbatim>\<open>%.1f\<close>
  prints as \<^verbatim>\<open>+Inf\<close>.
\<close>

definition comparison_writes :: "env \<Rightarrow> Results \<Rightarrow> Results \<Rightarrow> string list" where
  "comparison_writes e current baseline =
     (let passedChange = wrap64 (Passed current - Passed baseline);
          failedChange = wrap64 (Failed current - Failed baseline);
          costChange = TotalCost current - TotalCost baseline
      in [''# '' @ [CHR 0xF0, CHR 0x9F, CHR 0x93, CHR 0x8A] @ '' Baseline Comparison Report''
            @ [CHR 0x0A, CHR 0x0A],
          ''## '' @ [CHR 0xF0, CHR 0x9F, CHR 0x93, CHR 0x88] @ '' Summary Changes''
            @ [CHR 0x0A, CHR 0x0A],
          ''| Metric | Baseline | Current | Change |'' @ [CHR 0x0A],
          ''|--------|----------|---------|--------|'' @ [CHR 0x0A],
          ''| Passed | '' @ fmt_d (Passed baseline) @ '' | '' @ fmt_d (Passed current) @ '' | ''
            @ formatChange passedChange @ '' |'' @ [CHR 0x0A],
          ''| Failed | '' @ fmt_d (Failed baseline) @ '' | '' @ fmt_d (Failed current) @ '' | ''
            @ formatChange failedChange @ '' |'' @ [CHR 0x0A],
          ''| Cost | $'' @ fmt_float e 4 (TotalCost baseline) @ '' | $''
            @ fmt_float e 4 (TotalCost current) @ '' | '' @ formatCostChange e costChange
            @ '' |'' @ [CHR 0x0A]]
         @ (if Failed current > Failed baseline then [regression_mark]
            else if Failed current < Failed baseline then [improvement_mark]
            else [])
         @ (if costChange > 1 / 1000 then
              [[CHR 0xF0, CHR 0x9F, CHR 0x92, CHR 0xB8] @ '' **COST ALERT** - Cost increased by $''
                 @ fmt_float e 4 costChange @ '' (''
                 @ (if TotalCost baseline = 0 then ''+Inf''
                    else fmt_float e 1 (costChange / TotalCost baseline * 100))
                 @ ''%)'' @ [CHR 0x0A, CHR 0x0A]]
            else []))"

definition GenerateBaselineComparison :: "env \<Rightarrow> Results \<Rightarrow> Results \<Rightarrow> string" where
  "GenerateBaselineComparison e current baseline = concat (comparison_writes e current baseline)"

section \<open>Auxiliary definitions for the properties\<close>

text \<open>The steps possible in a state.\<close>

definition enabled :: "int \<Rightarrow> pool \<Rightarrow> action list" where
  "enabled P s =
     (if todo s = [] then [] else [Spawn])
     @ (if int (semaphore s) < P then map Acquire [0..<length (waiting s)] else [])
     @ (if length (testResults s) < capacity s then map Finish [0..<length (running s)] else [])
     @ (if 0 < releasing s \<and> 0 < semaphore s \<and> 0 < wg s then [Release] else [])
     @ (if todo s = [] \<and> wg s = 0 \<and> \<not> closed s then [Close] else [])
     @ (if testResults s \<noteq> [] \<and> todo s = [] then [Collect] else [])"

text \<open>The number of results with a given status.\<close>

definition tally :: "string \<Rightarrow> TestResult list \<Rightarrow> int" where
  "tally status rs = int (length (filter (\<lambda>t. trStatus t = status) rs))"

text \<open>What the collecting loop maintains: the counters count the collected results by
  status, the cost is their sum, and the other fields stay as they were.\<close>

definition aggregated :: "Results \<Rightarrow> Results \<Rightarrow> bool" where
  "aggregated res0 res =
     (Total res = Total res0 \<and> Metadata res = Metadata res0 \<and> Duration res = Duration res0 \<and>
      Passed res = tally ''passed'' (TestResults res) \<and>
      Failed res = tally ''failed'' (TestResults res) \<and>
      Skipped res = tally ''skipped'' (TestResults res) \<and>
      TotalCost res = sum_list (map trCost (TestResults res)))"

text \<open>
  The invariant of the pool: the semaphore holds one element per goroutine between its
  acquire and its release; the wait group counts the goroutines that are not done; the
  channel is closed only behind the last goroutine; and every case is at one place, not
  yet started, waiting, running, with its result in the channel, or collected.
\<close>

definition pool_inv :: "(TestCase \<Rightarrow> TestResult) \<Rightarrow> TestCase list \<Rightarrow> pool \<Rightarrow> bool" where
  "pool_inv run tcs s =
     (semaphore s = length (running s) + releasing s \<and>
      wg s = length (waiting s) + length (running s) + releasing s \<and>
      capacity s = length tcs \<and>
      mset (map run (todo s)) + mset (map run (waiting s)) + mset (map run (running s))
        + mset (testResults s) + mset (TestResults (results s)) = mset (map run tcs) \<and>
      (closed s \<longrightarrow> todo s = [] \<and> wg s = 0))"

text \<open>Every step lowers this number.\<close>

definition pool_measure :: "pool \<Rightarrow> nat" where
  "pool_measure s =
     6 * length (todo s) + 5 * length (waiting s) + 4 * length (running s) + 2 * releasing s
     + length (testResults s) + (if closed s then 0 else 1)"

text \<open>The five steps of \<^verbatim>\<open>runSingleTest\<close> that can fail, in order: the text it stores in
  \<^verbatim>\<open>Error\<close> when one does, the response when none does.\<close>

definition completion :: "env \<Rightarrow> Runner \<Rightarrow> TestCase \<Rightarrow> string + Response" where
  "completion e r testCase =
     (case LoadFromFile e (tcPromptFile testCase) of
        Inl err \<Rightarrow> Inl (''Failed to load prompt: '' @ err)
      | Inr prompt \<Rightarrow>
      (case Render e prompt (tcVariables testCase) of
        Inl err \<Rightarrow> Inl (''Failed to render prompt: '' @ err)
      | Inr renderedPrompt \<Rightarrow>
      (case GetProvider (cProviders (config r)) (tcProvider testCase) of
        Inl err \<Rightarrow> Inl (''Provider not found: '' @ err)
      | Inr providerConfig \<Rightarrow>
      (case NewClient e providerConfig of
        Inl err \<Rightarrow> Inl (''Failed to create provider client: '' @ err)
      | Inr client \<Rightarrow>
      (case Complete e client renderedPrompt of
        Inl err \<Rightarrow> Inl (''Failed to execute prompt: '' @ err)
      | Inr response \<Rightarrow> Inr response)))))"

text \<open>The cases \<^verbatim>\<open>Run\<close> submits and the accumulator it starts from.\<close>

definition Run_cases :: "Runner \<Rightarrow> (string list \<Rightarrow> string list) \<Rightarrow> (string \<times> Prompt) list \<Rightarrow> TestCase list" where
  "Run_cases r order promptFiles = submitted r (order (map fst promptFiles))"

definition Run_init :: "env \<Rightarrow> Runner \<Rightarrow> TestCase list \<Rightarrow> Results" where
  "Run_init e r testCases = (Results0 e r)\<lparr>Total := int (length testCases)\<rparr>"

subsection \<open>A concrete run\<close>

text \<open>
  One prompt file and one configured provider. The first test names no provider, the
  second names one that is not configured and has no name of its own. The provider
  answers every prompt with the same text, at a quarter of a dollar.
\<close>

definition ex_env :: env where
  "ex_env =
     \<lparr>LoadFromFile = (\<lambda>f. if f = ''a.prompt'' then Inr \<lparr>prContent = ''Hello'', prMetadata = []\<rparr>
                           else Inl ''no such file''),
      Render = (\<lambda>p vars. Inr (prContent p)),
      NewClient = (\<lambda>p. if pID p = ''ollama:llama2'' then Inr \<lparr>clName = ''ollama'', clModel = ''llama2''\<rparr>
                        else Inl ''unsupported provider''),
      Complete = (\<lambda>c text. Inr \<lparr>rText = ''Welcome! {'' @ [CHR 0x22] @ ''a'' @ [CHR 0x22] @ '':1}'',
                               rCost = 1 / 4, rTokens = 2, rProvider = clName c, rModel = clModel c\<rparr>),
      Since = 5, Now = ''2024-01-01T00:00:00Z'', fmt_float = (\<lambda>n x. ''0.00'')\<rparr>"

definition ex_test1 :: Test where
  "ex_test1 =
     \<lparr>tName = ''json'', tDescription = [], tVariables = [],
      tAssert = [\<lparr>aType = ''contains-json'', aValue = AMap [(''required'', AList [AStr ''a''])],
                  aThreshold = 0, aRequired = False\<rparr>],
      tProvider = []\<rparr>"

definition ex_test2 :: Test where
  "ex_test2 =
     \<lparr>tName = [], tDescription = [], tVariables = [],
      tAssert = [\<lparr>aType = ''toxicity'', aValue = ANil, aThreshold = 0, aRequired = False\<rparr>],
      tProvider = ''missing:model''\<rparr>"

definition ex_runner :: Runner where
  "ex_runner =
     \<lparr>config = \<lparr>cDescription = [], cPrompts = [''a.prompt''],
                 cProviders = [\<lparr>pID = ''ollama:llama2'', pConfig = []\<rparr>],
                 cTests = [ex_test1, ex_test2]\<rparr>,
      options = \<lparr>Parallel = 1, UpdateBaseline = False, Filters = [], Verbose = False,
                  CIMode = False, BaselinePath = [], CommitSHA = [], PRNumber = []\<rparr>\<rparr>"

definition ex_case1 :: TestCase where
  "ex_case1 =
     \<lparr>tcName = ''json'', tcPromptFile = ''a.prompt'', tcProvider = ''ollama:llama2'',
      tcVariables = [], tcTest = ex_test1\<rparr>"

definition ex_case2 :: TestCase where
  "ex_case2 =
     \<lparr>tcName = ''a.prompt_test_1'', tcPromptFile = ''a.prompt'', tcProvider = ''missing:model'',
      tcVariables = [], tcTest = ex_test2\<rparr>"

text \<open>The second goroutine gets the slot first; the first one waits until it is
  released.\<close>

definition ex_schedule :: "action list" where
  "ex_schedule =
     [Spawn, Spawn, Acquire 1, Finish 0, Release, Acquire 0, Finish 0, Release, Close,
      Collect, Collect]"

definition ex_result1 :: TestResult where
  "ex_result1 =
     \<lparr>trName = ''json'', trPromptFile = ''a.prompt'', trProvider = ''ollama:llama2'',
      trVariables = [], trResponse = ''Welcome! {'' @ [CHR 0x22] @ ''a'' @ [CHR 0x22] @ '':1}'',
      trAssertions =
        [\<lparr>arType = ''contains-json'', arExpected = AMap [(''required'', AList [AStr ''a''])],
          arActual = AStr (''{'' @ [CHR 0x22] @ ''a'' @ [CHR 0x22] @ '':1}''), arPassed = True,
          arScore = 0, arMessage = ''Valid JSON found''\<rparr>],
      trCost = 1 / 4, trDuration = 5, trStatus = ''passed'', trError = []\<rparr>"

definition ex_result2 :: TestResult where
  "ex_result2 =
     \<lparr>trName = ''a.prompt_test_1'', trPromptFile = ''a.prompt'', trProvider = ''missing:model'',
      trVariables = [], trResponse = [], trAssertions = [], trCost = 0, trDuration = 5,
      trStatus = ''failed'',
      trError = ''Provider not found: provider not found: missing:model''\<rparr>"

definition ex_prompts :: "(string \<times> Prompt) list" where
  "ex_prompts = [(''a.prompt'', \<lparr>prContent = ''Hello'', prMetadata = []\<rparr>)]"

text \<open>The state behind the first three steps of the schedule.\<close>

definition ex_state :: pool where
  "ex_state =
     \<lparr>todo = [], waiting = [ex_case1], running = [ex_case2], releasing = 0, semaphore = 1,
      wg = 2, testResults = [], capacity = 2, closed = False,
      results = Run_init ex_env ex_runner [ex_case1, ex_case2]\<rparr>"

definition ex_results :: Results where
  "ex_results =
     \<lparr>Total = 2, Passed = 1, Failed = 1, Skipped = 0, TotalCost = 1 / 4, Duration = 5,
      TestResults = [ex_result2, ex_result1],
      Metadata = \<lparr>mTimestamp = ''2024-01-01T00:00:00Z'', mCommitSHA = [], mPRNumber = [],
                  mBranch = [], mVersion = ''0.1.0''\<rparr>\<rparr>"

text \<open>The kinds \<^verbatim>\<open>NewEvaluator\<close> has a case for.\<close>

definition registered_kinds :: "string list" where
  "registered_kinds =
     [''answer-relevance'', ''contains-json'', ''cost'', ''llm-rubric'', ''closed-qa'',
      ''toxicity'', ''jailbreak'']"

text \<open>An assertion of a kind that is not registered, and the first case of the concrete
  run with this assertion in place of its own.\<close>

definition ex_unknown :: Assertion where
  "ex_unknown = \<lparr>aType = ''sentiment'', aValue = ANil, aThreshold = 0, aRequired = False\<rparr>"

definition ex_case3 :: TestCase where
  "ex_case3 = ex_case1\<lparr>tcName := ''unknown'', tcTest := ex_test1\<lparr>tAssert := [ex_unknown]\<rparr>\<rparr>"

definition ex_response :: Response where
  "ex_response =
     \<lparr>rText = ''Welcome! {'' @ [CHR 0x22] @ ''a'' @ [CHR 0x22] @ '':1}'', rCost = 1 / 4,
      rTokens = 2, rProvider = ''ollama'', rModel = ''llama2''\<rparr>"

text \<open>The runner of the concrete run, with a name filter that neither of its two cases
  matches.\<close>

definition ex_filter_runner :: Runner where
  "ex_filter_runner = ex_runner\<lparr>options := (options ex_runner)\<lparr>Filters := [''invoice'']\<rparr>\<rparr>"

subsection \<open>The claims' own words, for comparison\<close>


text \<open>
  The test cases as the specification words them: the cross product of the prompts and
  the tests of the configuration, both in the order of their declaration.
\<close>

definition cross_product :: "Runner \<Rightarrow> string list \<Rightarrow> TestCase list" where
  "cross_product r prompts =
     concat (map (\<lambda>promptFile. map (\<lambda>(i, test). make_case r promptFile i test)
                                   (enumerate 0 (cTests (config r))))
                 prompts)"

definition declared_cases :: "Runner \<Rightarrow> TestCase list" where
  "declared_cases r = cross_product r (cPrompts (config r))"



fun brace_depth :: "nat \<Rightarrow> string \<Rightarrow> nat" where
  "brace_depth d [] = d"
| "brace_depth d (c # cs) =
     (if c = CHR ''{'' then max (Suc d) (brace_depth (Suc d) cs)
      else if c = CHR ''}'' then max d (brace_depth (d - 1) cs)
      else brace_depth d cs)"













text \<open>The concrete run with a second prompt file, and with the first one listed twice.\<close>

definition ex_env2 :: env where
  "ex_env2 = ex_env\<lparr>LoadFromFile := (\<lambda>f. Inr \<lparr>prContent = ''Hello'', prMetadata = []\<rparr>)\<rparr>"

definition ex_runner2 :: Runner where
  "ex_runner2 = ex_runner\<lparr>config := (config ex_runner)\<lparr>cPrompts := [''a.prompt'', ''b.prompt'']\<rparr>\<rparr>"

definition ex_runner_twice :: Runner where
  "ex_runner_twice = ex_runner\<lparr>config := (config ex_runner)\<lparr>cPrompts := [''a.prompt'', ''a.prompt'']\<rparr>\<rparr>"


section \<open>Properties\<close>

subsection \<open>The JSON parser\<close>

text \<open>
  Every parser reads at least one byte, and more calls never change a result, so the
  bound on the depth of the calls that \<open>json_Unmarshal\<close> sets is never the reason for a
  text not to parse.
\<close>

lemma skip_ws_length: "length (skip_ws s) \<le> length s"
  by (simp add: skip_ws_def length_dropWhile_le)

lemma skip_ws_Cons: "skip_ws s = c # cs \<Longrightarrow> length cs < length s"
  using skip_ws_length[of s] by simp

lemma json_string_length: "json_string s = Some (t, r) \<Longrightarrow> length r < length s"
proof (induction s arbitrary: t r rule: json_string.induct)
  case 1
  then show ?case by simp
next
  case (2 c cs)
  show ?case
  proof (cases "c = CHR 0x22")
    case True
    with 2 show ?thesis by simp
  next
    case nq: False
    show ?thesis
    proof (cases "c = CHR 0x5C")
      case False
      with nq "2.prems" obtain t' where "json_string cs = Some (t', r)"
        by (auto split: if_splits)
      from "2.IH"(3)[OF nq False _ this] nq False "2.prems" show ?thesis
        by (auto split: if_splits)
    next
      case True
      with nq "2.prems" obtain e r0 where cs: "cs = e # r0"
        by (cases cs) auto
      show ?thesis
      proof (cases "e = CHR ''u''")
        case u: True
        with nq True cs "2.prems" obtain n t' where n: "getu4 (take 4 r0) = Some n"
          and rec: "json_string (drop (4 + snd (decode_u n (drop 4 r0))) r0) = Some (t', r)"
          by (auto split: option.splits)
        from "2.IH"(1)[OF nq True cs u n rec]
        have "length r < length (drop (4 + snd (decode_u n (drop 4 r0))) r0)" .
        with cs show ?thesis by simp
      next
        case False
        with nq True cs "2.prems" obtain d t' where d: "simple_escape e = Some d"
          and rec: "json_string r0 = Some (t', r)"
          by (auto split: option.splits)
        from "2.IH"(2)[OF nq True cs False d rec] cs show ?thesis by simp
      qed
    qed
  qed
qed

lemma json_exponent_length: "json_exponent s = Some (t, r) \<Longrightarrow> length r \<le> length s"
  by (auto simp: json_exponent_def Let_def split: list.splits if_splits
      intro: order_trans[OF length_dropWhile_le] le_SucI)

lemma json_fraction_length: "json_fraction s = Some (t, r) \<Longrightarrow> length r \<le> length s"
  by (auto simp: json_fraction_def Let_def split: list.splits if_splits
        dest!: json_exponent_length
        intro: order_trans[OF _ length_dropWhile_le] le_SucI)

lemma json_number_length: "json_number s = Some (t, r) \<Longrightarrow> length r < length s"
proof -
  assume a: "json_number s = Some (t, r)"
  let ?sg = "(case s of [] \<Rightarrow> [] | c # _ \<Rightarrow> if c = CHR ''-'' then [c] else [])"
  let ?s1 = "drop (length ?sg) s"
  from a obtain d r1 where s1: "?s1 = d # r1"
    by (cases ?s1) (auto simp: json_number_def Let_def)
  have l1: "length ?s1 \<le> length s" by simp
  show ?thesis
  proof (cases "d = CHR ''0''")
    case True
    with a s1 obtain f where "json_fraction r1 = Some (f, r)"
      by (auto simp: json_number_def Let_def)
    from json_fraction_length[OF this] s1 l1 show ?thesis
      by (metis le_imp_less_Suc length_Cons less_le_trans)
  next
    case False
    with a s1 obtain f where d: "is_digit d" and "json_fraction (dropWhile is_digit ?s1) = Some (f, r)"
      by (auto simp: json_number_def Let_def split: if_splits)
    from json_fraction_length[OF this(2)] have "length r \<le> length (dropWhile is_digit ?s1)" .
    also from d s1 have "length (dropWhile is_digit ?s1) \<le> length r1"
      by (simp add: length_dropWhile_le)
    also from s1 l1 have "length r1 < length s"
      by (metis le_imp_less_Suc length_Cons less_le_trans order_refl)
    finally show ?thesis .
  qed
qed

lemma json_fuel_step:
  "(\<forall>s x. json_value n s = Some x \<longrightarrow> json_value (Suc n) s = Some x) \<and>
   (\<forall>s x. json_elements n s = Some x \<longrightarrow> json_elements (Suc n) s = Some x) \<and>
   (\<forall>s x. json_members n s = Some x \<longrightarrow> json_members (Suc n) s = Some x)"
proof (induction n)
  case 0
  show ?case by simp
next
  case (Suc n)
  then have v: "json_value n s = Some x \<Longrightarrow> json_value (Suc n) s = Some x"
    and e: "json_elements n s = Some y \<Longrightarrow> json_elements (Suc n) s = Some y"
    and m: "json_members n s = Some z \<Longrightarrow> json_members (Suc n) s = Some z" for s x y z
    by blast+
  have 1: "json_value (Suc (Suc n)) s = Some x" if "json_value (Suc n) s = Some x" for s x
    using that
    apply (subst json_value.simps(2))
    apply (subst (asm) json_value.simps(2))
    apply (auto split: list.split_asm if_split_asm option.split_asm dest!: e m)
    done
  have 2: "json_elements (Suc (Suc n)) s = Some x" if "json_elements (Suc n) s = Some x" for s x
    using that
    apply (subst json_elements.simps(2))
    apply (subst (asm) json_elements.simps(2))
    apply (auto split: list.split_asm if_split_asm option.split_asm prod.split_asm dest!: e v)
    done
  have 3: "json_members (Suc (Suc n)) s = Some x" if "json_members (Suc n) s = Some x" for s x
    using that
    apply (subst json_members.simps(2))
    apply (subst (asm) json_members.simps(2))
    apply (auto split: list.split_asm if_split_asm option.split_asm prod.split_asm dest!: m v)
    done
  from 1 2 3 show ?case by blast
qed

lemma json_value_mono: "n \<le> m \<Longrightarrow> json_value n s = Some x \<Longrightarrow> json_value m s = Some x"
proof (induction m)
  case 0
  then show ?case by simp
next
  case (Suc m)
  show ?case
  proof (cases "n = Suc m")
    case True
    with Suc.prems show ?thesis by (simp only:)
  next
    case False
    with Suc.prems have "n \<le> m" by arith
    from Suc.IH[OF this Suc.prems(2)] json_fuel_step[of m] show ?thesis by blast
  qed
qed

lemma json_elements_mono:
  "n \<le> m \<Longrightarrow> json_elements n s = Some x \<Longrightarrow> json_elements m s = Some x"
proof (induction m)
  case 0
  then show ?case by simp
next
  case (Suc m)
  show ?case
  proof (cases "n = Suc m")
    case True
    with Suc.prems show ?thesis by (simp only:)
  next
    case False
    with Suc.prems have "n \<le> m" by arith
    from Suc.IH[OF this Suc.prems(2)] json_fuel_step[of m] show ?thesis by blast
  qed
qed

lemma json_members_mono:
  "n \<le> m \<Longrightarrow> json_members n s = Some x \<Longrightarrow> json_members m s = Some x"
proof (induction m)
  case 0
  then show ?case by simp
next
  case (Suc m)
  show ?case
  proof (cases "n = Suc m")
    case True
    with Suc.prems show ?thesis by (simp only:)
  next
    case False
    with Suc.prems have "n \<le> m" by arith
    from Suc.IH[OF this Suc.prems(2)] json_fuel_step[of m] show ?thesis by blast
  qed
qed

lemma value_enough:
  assumes E: "\<And>s' k x r'. length s' < length s \<Longrightarrow> json_elements k s' = Some (x, r') \<Longrightarrow>
                length r' < length s' \<and> json_elements (2 * length s) s' = Some (x, r')"
    and M: "\<And>s' k x r'. length s' < length s \<Longrightarrow> json_members k s' = Some (x, r') \<Longrightarrow>
                length r' < length s' \<and> json_members (2 * length s) s' = Some (x, r')"
    and v: "json_value n s = Some (v, r)"
  shows "length r < length s \<and> json_value (Suc (2 * length s)) s = Some (v, r)"
proof -
  from v obtain k where n: "n = Suc k" by (cases n) auto
  from v obtain c cs where sk: "skip_ws s = c # cs"
    unfolding n by (cases "skip_ws s") auto
  from skip_ws_Cons[OF sk] have lcs: "length cs < length s" .
  show ?thesis
  proof (cases "c = CHR ''{''")
    case True
    from v True sk obtain d ds where sk2: "skip_ws cs = d # ds"
      unfolding n by (cases "skip_ws cs") auto
    from skip_ws_length[of cs] sk2 lcs have lds: "length (d # ds) < length s" by simp
    show ?thesis
    proof (cases "d = CHR ''}''")
      case True
      with v \<open>c = CHR ''{''\<close> sk sk2 lds show ?thesis unfolding n by auto
    next
      case False
      with v \<open>c = CHR ''{''\<close> sk sk2 obtain ms where ms: "json_members k (d # ds) = Some (ms, r)"
        and vv: "v = JObj ms"
        unfolding n by auto
      from M[OF lds ms] False \<open>c = CHR ''{''\<close> sk sk2 lds vv show ?thesis by auto
    qed
  next
    case nobj: False
    show ?thesis
    proof (cases "c = CHR ''[''")
      case True
      from v True nobj sk obtain d ds where sk2: "skip_ws cs = d # ds"
        unfolding n by (cases "skip_ws cs") auto
      from skip_ws_length[of cs] sk2 lcs have lds: "length (d # ds) < length s" by simp
      show ?thesis
      proof (cases "d = CHR '']''")
        case True
        with v \<open>c = CHR ''[''\<close> nobj sk sk2 lds show ?thesis unfolding n by auto
      next
        case False
        with v \<open>c = CHR ''[''\<close> nobj sk sk2 obtain vs where vs: "json_elements k (d # ds) = Some (vs, r)"
          and vv: "v = JArr vs"
          unfolding n by auto
        from E[OF lds vs] False \<open>c = CHR ''[''\<close> nobj sk sk2 lds vv show ?thesis by auto
      qed
    next
      case narr: False
      have same: "json_value (Suc (2 * length s)) s = json_value n s"
        unfolding n using sk nobj narr by simp
      have "length r < length s"
        using v sk nobj narr lcs unfolding n
        by (auto split: if_split_asm dest!: json_string_length json_number_length)
      with same v show ?thesis by simp
    qed
  qed
qed

lemma elements_enough:
  assumes V: "\<And>k v r'. json_value k s = Some (v, r') \<Longrightarrow>
                length r' < length s \<and> json_value (Suc (2 * length s)) s = Some (v, r')"
    and E: "\<And>s' k x r'. length s' < length s \<Longrightarrow> json_elements k s' = Some (x, r') \<Longrightarrow>
                length r' < length s' \<and> json_elements (2 * length s' + 2) s' = Some (x, r')"
    and e: "json_elements n s = Some (vs, r)"
  shows "length r < length s \<and> json_elements (Suc (Suc (2 * length s))) s = Some (vs, r)"
proof -
  from e obtain k where n: "n = Suc k" by (cases n) auto
  from e obtain v r1 where v: "json_value k s = Some (v, r1)"
    unfolding n by (cases "json_value k s") auto
  from V[OF v] have l1: "length r1 < length s"
    and v': "json_value (Suc (2 * length s)) s = Some (v, r1)" by simp_all
  from e v obtain c cs where sk: "skip_ws r1 = c # cs"
    unfolding n by (cases "skip_ws r1") auto
  from skip_ws_Cons[OF sk] l1 have lcs: "length cs < length s" "Suc (length cs) < length s"
    by simp_all
  show ?thesis
  proof (cases "c = CHR '']''")
    case True
    with e v sk have "vs = [v]" "r = cs" unfolding n by auto
    with v' sk True lcs show ?thesis by simp
  next
    case False
    with e v sk obtain vs' where c: "c = CHR '',''" and rest: "json_elements k cs = Some (vs', r)"
      and vs: "vs = v # vs'"
      unfolding n by (auto split: if_split_asm)
    from E[OF lcs(1) rest] have lr: "length r < length cs"
      and "json_elements (2 * length cs + 2) cs = Some (vs', r)" by simp_all
    from json_elements_mono[OF _ this(2), of "Suc (2 * length s)"] lcs
    have "json_elements (Suc (2 * length s)) cs = Some (vs', r)" by simp
    with v' sk False c vs lr lcs show ?thesis by simp
  qed
qed

lemma members_enough:
  assumes V: "\<And>s' k v r'. length s' < length s \<Longrightarrow> json_value k s' = Some (v, r') \<Longrightarrow>
                length r' < length s' \<and> json_value (Suc (2 * length s')) s' = Some (v, r')"
    and M: "\<And>s' k x r'. length s' < length s \<Longrightarrow> json_members k s' = Some (x, r') \<Longrightarrow>
                length r' < length s' \<and> json_members (Suc (2 * length s')) s' = Some (x, r')"
    and m: "json_members n s = Some (ms, r)"
  shows "length r < length s \<and> json_members (Suc (2 * length s)) s = Some (ms, r)"
proof -
  from m obtain k where n: "n = Suc k" by (cases n) auto
  from m obtain c cs where sk: "skip_ws s = c # cs"
    unfolding n by (cases "skip_ws s") auto
  from m sk have q: "c = CHR 0x22" unfolding n by (auto split: if_split_asm)
  from m sk q obtain key r1 where key: "json_string cs = Some (key, r1)"
    unfolding n by (cases "json_string cs") auto
  from m sk q key obtain c2 r2 where sk2: "skip_ws r1 = c2 # r2"
    unfolding n by (cases "skip_ws r1") auto
  from m sk q key sk2 have colon: "c2 = CHR '':''" unfolding n by (auto split: if_split_asm)
  from m sk q key sk2 colon obtain v r3 where v: "json_value k r2 = Some (v, r3)"
    unfolding n by (cases "json_value k r2") auto
  from m sk q key sk2 colon v obtain c3 r4 where sk3: "skip_ws r3 = c3 # r4"
    unfolding n by (cases "skip_ws r3") auto
  from skip_ws_Cons[OF sk] json_string_length[OF key] skip_ws_Cons[OF sk2]
  have l2: "length r2 < length s" "Suc (Suc (length r2)) < length s" by simp_all
  from V[OF l2(1) v] have l3: "length r3 < length r2"
    and "json_value (Suc (2 * length r2)) r2 = Some (v, r3)" by simp_all
  from json_value_mono[OF _ this(2), of "2 * length s"] l2
  have v': "json_value (2 * length s) r2 = Some (v, r3)" by simp
  from skip_ws_Cons[OF sk3] l3 l2 have l4: "length r4 < length s" "Suc (length r4) < length s"
    by simp_all
  show ?thesis
  proof (cases "c3 = CHR ''}''")
    case True
    with m sk q key sk2 colon v sk3 have "ms = [(key, v)]" "r = r4" unfolding n by auto
    with sk q key sk2 colon v' sk3 True l4 show ?thesis by simp
  next
    case False
    with m sk q key sk2 colon v sk3 obtain ms' where c: "c3 = CHR '',''"
      and rest: "json_members k r4 = Some (ms', r)" and ms: "ms = (key, v) # ms'"
      unfolding n by (auto split: if_split_asm)
    from M[OF l4(1) rest] have lr: "length r < length r4"
      and "json_members (Suc (2 * length r4)) r4 = Some (ms', r)" by simp_all
    from json_members_mono[OF _ this(2), of "2 * length s"] l4
    have "json_members (2 * length s) r4 = Some (ms', r)" by simp
    with sk q key sk2 colon v' sk3 False c ms lr l4 show ?thesis by simp
  qed
qed

lemma json_fuel_enough:
  "(json_value n s = Some (v, r) \<longrightarrow>
      length r < length s \<and> json_value (Suc (2 * length s)) s = Some (v, r)) \<and>
   (json_elements n' s = Some (vs, r1) \<longrightarrow>
      length r1 < length s \<and> json_elements (2 * length s + 2) s = Some (vs, r1)) \<and>
   (json_members n'' s = Some (ms, r2) \<longrightarrow>
      length r2 < length s \<and> json_members (Suc (2 * length s)) s = Some (ms, r2))"
proof (induction "length s" arbitrary: s n v r n' vs r1 n'' ms r2 rule: less_induct)
  case less
  have E: "length r' < length s' \<and> json_elements (2 * length s' + 2) s' = Some (x, r')"
    if "length s' < length s" "json_elements k s' = Some (x, r')" for s' k x r'
    using less[OF that(1)] that(2) by blast
  have M: "length r' < length s' \<and> json_members (Suc (2 * length s')) s' = Some (x, r')"
    if "length s' < length s" "json_members k s' = Some (x, r')" for s' k x r'
    using less[OF that(1)] that(2) by blast
  have V: "length r' < length s' \<and> json_value (Suc (2 * length s')) s' = Some (x, r')"
    if "length s' < length s" "json_value k s' = Some (x, r')" for s' k x r'
    using less[OF that(1)] that(2) by blast
  have E': "length r' < length s' \<and> json_elements (2 * length s) s' = Some (x, r')"
    if "length s' < length s" "json_elements k s' = Some (x, r')" for s' k x r'
    using E[OF that] json_elements_mono[of "2 * length s' + 2" "2 * length s" s'] that(1) by simp
  have M': "length r' < length s' \<and> json_members (2 * length s) s' = Some (x, r')"
    if "length s' < length s" "json_members k s' = Some (x, r')" for s' k x r'
    using M[OF that] json_members_mono[of "Suc (2 * length s')" "2 * length s" s'] that(1) by simp
  have Vs: "length r' < length s \<and> json_value (Suc (2 * length s)) s = Some (x, r')"
    if v: "json_value k s = Some (x, r')" for k x r'
  proof (rule value_enough[OF _ _ v])
    show "length r'' < length s' \<and> json_elements (2 * length s) s' = Some (y, r'')"
      if "length s' < length s" "json_elements j s' = Some (y, r'')" for s' j y r''
      using E'[OF that] .
    show "length r'' < length s' \<and> json_members (2 * length s) s' = Some (y, r'')"
      if "length s' < length s" "json_members j s' = Some (y, r'')" for s' j y r''
      using M'[OF that] .
  qed
  have Es: "length r' < length s \<and> json_elements (2 * length s + 2) s = Some (x, r')"
    if e: "json_elements k s = Some (x, r')" for k x r'
  proof -
    have "length r' < length s \<and> json_elements (Suc (Suc (2 * length s))) s = Some (x, r')"
    proof (rule elements_enough[OF _ _ e])
      show "length r'' < length s \<and> json_value (Suc (2 * length s)) s = Some (y, r'')"
        if "json_value j s = Some (y, r'')" for j y r''
        using Vs[OF that] .
      show "length r'' < length s' \<and> json_elements (2 * length s' + 2) s' = Some (y, r'')"
        if "length s' < length s" "json_elements j s' = Some (y, r'')" for s' j y r''
        using E[OF that] .
    qed
    then show ?thesis by simp
  qed
  have Ms: "length r' < length s \<and> json_members (Suc (2 * length s)) s = Some (x, r')"
    if m: "json_members k s = Some (x, r')" for k x r'
  proof (rule members_enough[OF _ _ m])
    show "length r'' < length s' \<and> json_value (Suc (2 * length s')) s' = Some (y, r'')"
      if "length s' < length s" "json_value j s' = Some (y, r'')" for s' j y r''
      using V[OF that] .
    show "length r'' < length s' \<and> json_members (Suc (2 * length s')) s' = Some (y, r'')"
      if "length s' < length s" "json_members j s' = Some (y, r'')" for s' j y r''
      using M[OF that] .
  qed
  from Vs Es Ms show ?case by blast
qed

text \<open>The bound on the depth of the calls in \<open>json_Unmarshal\<close> is never reached.\<close>

lemma json_Unmarshal_any_fuel:
  "(json_Unmarshal s = Some v) = (\<exists>n r. json_value n s = Some (v, r) \<and> skip_ws r = [])"
proof
  assume "json_Unmarshal s = Some v"
  then show "\<exists>n r. json_value n s = Some (v, r) \<and> skip_ws r = []"
    by (simp del: json_value.simps add: json_Unmarshal_def
          split: option.split_asm if_split_asm prod.split_asm) blast
next
  assume "\<exists>n r. json_value n s = Some (v, r) \<and> skip_ws r = []"
  then obtain n r where p: "json_value n s = Some (v, r)" and w: "skip_ws r = []" by blast
  from json_fuel_enough[of n s v r] p
  have "json_value (Suc (2 * length s)) s = Some (v, r)" by blast
  from json_value_mono[OF _ this, of "2 * length s + 2"]
  have "json_value (2 * length s + 2) s = Some (v, r)" by simp
  with w show "json_Unmarshal s = Some v" by (simp add: json_Unmarshal_def)
qed

subsection \<open>The worker pool\<close>

lemma step_enabled: "(step P run a s \<noteq> None) = (a \<in> set (enabled P s))"
  by (cases a) (auto simp: enabled_def split: list.splits)

lemma mset_remove_at: "i < length xs \<Longrightarrow> add_mset (xs ! i) (mset (remove_at i xs)) = mset xs"
  unfolding remove_at_def
  by (metis add_mset_add_single id_take_nth_drop mset.simps(2) mset_append union_mset_add_mset_right)

lemma image_mset_remove_at:
  "i < length xs \<Longrightarrow>
   image_mset f (mset xs) = add_mset (f (xs ! i)) (image_mset f (mset (remove_at i xs)))"
  using mset_remove_at[of i xs] by (metis image_mset_add_mset)

lemma length_remove_at: "i < length xs \<Longrightarrow> Suc (length (remove_at i xs)) = length xs"
  unfolding remove_at_def by auto

lemma aggregated_collect: "aggregated res0 res \<Longrightarrow> aggregated res0 (collect res t)"
  by (auto simp: aggregated_def collect_def tally_def Let_def)

lemma step_aggregated:
  "aggregated res0 (results s) \<Longrightarrow> step P run a s = Some s' \<Longrightarrow> aggregated res0 (results s')"
  by (cases a) (auto simp: aggregated_collect split: list.splits if_splits)

lemma exec_aggregated:
  "aggregated res0 (results s) \<Longrightarrow> exec P run as s = Some s' \<Longrightarrow> aggregated res0 (results s')"
  by (induction as arbitrary: s) (auto split: option.splits dest: step_aggregated)

lemma step_inv:
  assumes "pool_inv run tcs s" and "step P run a s = Some s'"
  shows "pool_inv run tcs s'"
proof (cases a)
  case Spawn
  with assms show ?thesis by (auto simp: pool_inv_def split: list.splits)
next
  case (Acquire i)
  with assms have i: "i < length (waiting s)" by (auto split: if_splits)
  with assms Acquire have s': "s' = s\<lparr>waiting := remove_at i (waiting s), running := running s @ [waiting s ! i],
                   semaphore := semaphore s + 1\<rparr>" by (auto split: if_splits)
  show ?thesis using assms(1) length_remove_at[OF i] image_mset_remove_at[OF i, of run]
    unfolding s' pool_inv_def by auto
next
  case (Finish i)
  with assms have i: "i < length (running s)" by (auto split: if_splits)
  with assms Finish have s': "s' = s\<lparr>running := remove_at i (running s),
                   testResults := testResults s @ [run (running s ! i)],
                   releasing := releasing s + 1\<rparr>" by (auto split: if_splits)
  show ?thesis using assms(1) length_remove_at[OF i] image_mset_remove_at[OF i, of run]
    unfolding s' pool_inv_def by auto
next
  case Release
  with assms show ?thesis by (auto simp: pool_inv_def split: if_splits)
next
  case Close
  with assms show ?thesis by (auto simp: pool_inv_def split: if_splits)
next
  case Collect
  with assms obtain t rest where s': "testResults s = t # rest" "s' = s\<lparr>testResults := rest, results := collect (results s) t\<rparr>"
    by (auto split: list.splits if_splits)
  have "TestResults (collect (results s) t) = TestResults (results s) @ [t]"
    by (simp add: collect_def Let_def)
  then show ?thesis using assms(1)
    unfolding s' pool_inv_def by auto
qed

lemma exec_inv:
  "pool_inv run tcs s \<Longrightarrow> exec P run as s = Some s' \<Longrightarrow> pool_inv run tcs s'"
  by (induction as arbitrary: s) (auto split: option.splits dest: step_inv)

lemma start_inv: "TestResults res0 = [] \<Longrightarrow> pool_inv run tcs (start tcs res0)"
  by (simp add: pool_inv_def start_def)

lemma step_sem_bound:
  "int (semaphore s) \<le> max 0 P \<Longrightarrow> step P run a s = Some s' \<Longrightarrow> int (semaphore s') \<le> max 0 P"
  by (cases a) (auto split: list.splits if_splits)

lemma exec_sem_bound:
  "int (semaphore s) \<le> max 0 P \<Longrightarrow> exec P run as s = Some s' \<Longrightarrow> int (semaphore s') \<le> max 0 P"
  by (induction as arbitrary: s) (auto split: option.splits dest: step_sem_bound)

lemma step_measure: "step P run a s = Some s' \<Longrightarrow> pool_measure s' < pool_measure s"
  by (cases a) (auto simp: pool_measure_def remove_at_def split: list.splits if_splits)

lemma exec_measure: "exec P run as s = Some s' \<Longrightarrow> pool_measure s' + length as \<le> pool_measure s"
  by (induction as arbitrary: s) (fastforce split: option.splits dest: step_measure)+

lemma exec_append:
  "exec P run (as @ bs) s = (case exec P run as s of None \<Rightarrow> None | Some s' \<Rightarrow> exec P run bs s')"
  by (induction as arbitrary: s) (auto split: option.splits)

lemma inv_count:
  assumes "pool_inv run tcs s"
  shows "length (todo s) + length (waiting s) + length (running s) + length (testResults s)
         + length (TestResults (results s)) = capacity s"
proof -
  from assms have eq: "mset (map run (todo s)) + mset (map run (waiting s)) + mset (map run (running s))
        + mset (testResults s) + mset (TestResults (results s)) = mset (map run tcs)"
    and cap: "capacity s = length tcs"
    by (simp_all add: pool_inv_def)
  from arg_cong[OF eq, of size] cap show ?thesis by simp
qed

lemma progress:
  assumes inv: "pool_inv run tcs s" and nf: "\<not> finished s" and P: "1 \<le> P"
  shows "enabled P s \<noteq> []"
proof -
  have "\<exists>a. a \<in> set (enabled P s)"
  proof (cases "todo s = []")
    case False
    then have "Spawn \<in> set (enabled P s)" by (simp add: enabled_def)
    then show ?thesis ..
  next
    case todo: True
    show ?thesis
    proof (cases "running s = []")
      case False
      with inv_count[OF inv] have "length (testResults s) < capacity s"
        by (cases "running s") auto
      with False have "Finish 0 \<in> set (enabled P s)" by (simp add: enabled_def)
      then show ?thesis ..
    next
      case run: True
      show ?thesis
      proof (cases "releasing s = 0")
        case False
        with inv have "Release \<in> set (enabled P s)" by (simp add: enabled_def pool_inv_def)
        then show ?thesis ..
      next
        case rel: True
        show ?thesis
        proof (cases "waiting s = []")
          case False
          with inv run rel P have "Acquire 0 \<in> set (enabled P s)"
            by (simp add: enabled_def pool_inv_def)
          then show ?thesis ..
        next
          case True
          with inv run rel have wg: "wg s = 0" by (simp add: pool_inv_def)
          show ?thesis
          proof (cases "closed s")
            case False
            with wg todo have "Close \<in> set (enabled P s)" by (simp add: enabled_def)
            then show ?thesis ..
          next
            case True
            with nf have "testResults s \<noteq> []" by (simp add: finished_def)
            with todo have "Collect \<in> set (enabled P s)" by (simp add: enabled_def)
            then show ?thesis ..
          qed
        qed
      qed
    qed
  qed
  then show ?thesis by auto
qed

lemma reaches_finished:
  assumes "pool_inv run tcs s" and "1 \<le> P"
  shows "\<exists>bs s'. exec P run bs s = Some s' \<and> finished s'"
  using assms(1)
proof (induction "pool_measure s" arbitrary: s rule: less_induct)
  case less
  show ?case
  proof (cases "finished s")
    case True
    then have "exec P run [] s = Some s \<and> finished s" by simp
    then show ?thesis by blast
  next
    case False
    from progress[OF less.prems False assms(2)] obtain a where "a \<in> set (enabled P s)"
      by (cases "enabled P s") auto
    then obtain s1 where s1: "step P run a s = Some s1"
      using step_enabled[of P run a s] by auto
    from less.hyps[OF step_measure[OF s1] step_inv[OF less.prems s1]]
    obtain bs s' where "exec P run bs s1 = Some s'" "finished s'" by blast
    with s1 have "exec P run (a # bs) s = Some s' \<and> finished s'" by simp
    then show ?thesis by blast
  qed
qed

lemma finished_results:
  assumes "pool_inv run tcs s" and "finished s"
  shows "mset (TestResults (results s)) = mset (map run tcs)"
  using assms by (auto simp: pool_inv_def finished_def)

lemma running_needs_slot:
  assumes "pool_inv run tcs s" and "int (semaphore s) \<le> max 0 P" and "running s \<noteq> []"
  shows "1 \<le> P"
  using assms by (cases "running s") (auto simp: pool_inv_def)

subsection \<open>C2: the concurrency limit\<close>

text \<open>
  C2. For every list of test cases and every limit \<^verbatim>\<open>Parallel\<close> of at least one, in every
  state that an interleaving of \<^verbatim>\<open>Run\<close> reaches: at most \<^verbatim>\<open>Parallel\<close> goroutines are
  inside \<^verbatim>\<open>runSingleTest\<close>; a waiting goroutine can take a slot exactly when fewer than
  \<^verbatim>\<open>Parallel\<close> goroutines hold one, so that the excess waits until a release; and every
  running goroutine can deliver its result and then release its slot, whatever the
  status of the result, a failed one included.
\<close>

theorem pool_bounds_in_flight:
  assumes P: "1 \<le> P" and empty: "TestResults res0 = []"
    and reach: "exec P run as (start tcs res0) = Some s"
  shows "int (length (running s)) \<le> P \<and>
         (\<forall>i. (step P run (Acquire i) s \<noteq> None)
                = (i < length (waiting s) \<and> int (length (running s) + releasing s) < P)) \<and>
         (\<forall>i < length (running s). \<exists>s1 s2.
             step P run (Finish i) s = Some s1 \<and>
             testResults s1 = testResults s @ [run (running s ! i)] \<and>
             step P run Release s1 = Some s2 \<and>
             running s2 = remove_at i (running s) \<and>
             semaphore s2 + 1 = semaphore s)"
proof -
  have inv: "pool_inv run tcs s"
    using exec_inv[OF start_inv[OF empty] reach] .
  have "int (semaphore (start tcs res0)) \<le> max 0 P" by (simp add: start_def)
  from exec_sem_bound[OF this reach] P have bound: "int (semaphore s) \<le> P" by simp
  from inv have sem: "semaphore s = length (running s) + releasing s"
    and wg: "wg s = length (waiting s) + length (running s) + releasing s"
    by (simp_all add: pool_inv_def)
  have a: "int (length (running s)) \<le> P" using bound sem by simp
  have b: "(step P run (Acquire i) s \<noteq> None)
             = (i < length (waiting s) \<and> int (length (running s) + releasing s) < P)" for i
    using sem by simp
  have c: "\<exists>s1 s2. step P run (Finish i) s = Some s1 \<and>
             testResults s1 = testResults s @ [run (running s ! i)] \<and>
             step P run Release s1 = Some s2 \<and>
             running s2 = remove_at i (running s) \<and>
             semaphore s2 + 1 = semaphore s" if i: "i < length (running s)" for i
  proof -
    from inv_count[OF inv] i have room: "length (testResults s) < capacity s" by simp
    from i have "length (running s) \<noteq> 0" by auto
    with sem wg have "0 < semaphore s" "0 < wg s" by simp_all
    with i room show ?thesis by simp
  qed
  from a b c show ?thesis by blast
qed

text \<open>The witness: the concrete run, behind its first three steps. The second case, which
  will fail, holds the only slot; the first one waits.\<close>

lemma ex_reach:
  "exec 1 (runSingleTest ex_env ex_runner) [Spawn, Spawn, Acquire 1]
     (start [ex_case1, ex_case2] (Run_init ex_env ex_runner [ex_case1, ex_case2])) = Some ex_state"
  by code_simp

theorem pool_bounds_in_flight_witness:
  "(1::int) \<le> 1 \<and>
   TestResults (Run_init ex_env ex_runner [ex_case1, ex_case2]) = [] \<and>
   exec 1 (runSingleTest ex_env ex_runner) [Spawn, Spawn, Acquire 1]
     (start [ex_case1, ex_case2] (Run_init ex_env ex_runner [ex_case1, ex_case2])) = Some ex_state \<and>
   int (length (running ex_state)) \<le> 1 \<and>
   step 1 (runSingleTest ex_env ex_runner) (Acquire 0) ex_state = None \<and>
   (\<exists>s1 s2. step 1 (runSingleTest ex_env ex_runner) (Finish 0) ex_state = Some s1 \<and>
      testResults s1 = [runSingleTest ex_env ex_runner ex_case2] \<and>
      step 1 (runSingleTest ex_env ex_runner) Release s1 = Some s2 \<and>
      running s2 = [] \<and> semaphore s2 = 0)"
proof -
  have e: "TestResults (Run_init ex_env ex_runner [ex_case1, ex_case2]) = []"
    by (simp add: Run_init_def Results0_def)
  have st: "running ex_state = [ex_case2]" "waiting ex_state = [ex_case1]" "releasing ex_state = 0"
    "testResults ex_state = []" "semaphore ex_state = 1"
    by (simp_all add: ex_state_def)
  from pool_bounds_in_flight[OF _ e ex_reach]
  show ?thesis using e ex_reach st by (simp add: remove_at_def)
qed

subsection \<open>Single tests\<close>

lemma completion_nonempty: "completion e r tc = Inl err \<Longrightarrow> err \<noteq> []"
  by (auto simp: completion_def split: sum.splits)

lemma runSingleTest_failed:
  "completion e r tc = Inl err \<Longrightarrow>
   runSingleTest e r tc =
     \<lparr>trName = tcName tc, trPromptFile = tcPromptFile tc, trProvider = tcProvider tc,
      trVariables = tcVariables tc, trResponse = [], trAssertions = [], trCost = 0,
      trDuration = Since e, trStatus = ''failed'', trError = err\<rparr>"
  by (auto simp: completion_def runSingleTest_def split: sum.splits)

lemma assert_loop_eq:
  "assert_loop e response as acc allPassed =
     (acc @ map (\<lambda>a. runAssertion e a response) as,
      allPassed \<and> list_all (\<lambda>a. arPassed (runAssertion e a response)) as)"
  by (induction as arbitrary: acc allPassed) (auto simp: Let_def)

lemma runSingleTest_completed:
  "completion e r tc = Inr response \<Longrightarrow>
   runSingleTest e r tc =
     \<lparr>trName = tcName tc, trPromptFile = tcPromptFile tc, trProvider = tcProvider tc,
      trVariables = tcVariables tc, trResponse = rText response,
      trAssertions = map (\<lambda>a. runAssertion e a response) (tAssert (tcTest tc)),
      trCost = rCost response, trDuration = Since e,
      trStatus = (if list_all (\<lambda>a. arPassed (runAssertion e a response)) (tAssert (tcTest tc))
                  then ''passed'' else ''failed''),
      trError = []\<rparr>"
  by (auto simp: completion_def runSingleTest_def assert_loop_eq split: sum.splits)

lemma runSingleTest_status:
  "trStatus (runSingleTest e r tc) = ''passed'' \<or> trStatus (runSingleTest e r tc) = ''failed''"
  by (cases "completion e r tc") (simp_all add: runSingleTest_failed runSingleTest_completed)

subsection \<open>Runs\<close>

lemma Run_Inr:
  assumes "Run e r order schedule = Inr res"
  obtains pf s where "loadPrompts e (cPrompts (config r)) [] = Inr pf"
    and "0 \<le> Parallel (options r)"
    and "exec (Parallel (options r)) (runSingleTest e r) schedule
           (start (Run_cases r order pf) (Run_init e r (Run_cases r order pf))) = Some s"
    and "finished s" and "res = (results s)\<lparr>Duration := Since e\<rparr>"
  using assms
  by (auto simp: Run_def Run_cases_def Run_init_def Let_def split: sum.splits if_splits option.splits)

lemma Run_init_aggregated: "aggregated (Run_init e r tcs) (Run_init e r tcs)"
  by (simp add: aggregated_def Run_init_def Results0_def tally_def)

lemma Run_init_empty: "TestResults (Run_init e r tcs) = []"
  by (simp add: Run_init_def Results0_def)

lemma tally_two:
  "\<forall>t \<in> set rs. trStatus t = ''passed'' \<or> trStatus t = ''failed'' \<Longrightarrow>
   tally ''passed'' rs + tally ''failed'' rs = int (length rs) \<and> tally ''skipped'' rs = 0"
  by (induction rs) (auto simp: tally_def)

lemma Run_results:
  assumes run: "Run e r order schedule = Inr res"
    and load: "loadPrompts e (cPrompts (config r)) [] = Inr pf"
  shows "mset (TestResults res) = mset (map (runSingleTest e r) (Run_cases r order pf))"
    and "Total res = int (length (Run_cases r order pf))"
    and "Passed res = tally ''passed'' (TestResults res)"
    and "Failed res = tally ''failed'' (TestResults res)"
    and "Skipped res = tally ''skipped'' (TestResults res)"
    and "TotalCost res = sum_list (map trCost (TestResults res))"
proof -
  let ?tcs = "Run_cases r order pf"
  from Run_Inr[OF run] load obtain s where
    ex: "exec (Parallel (options r)) (runSingleTest e r) schedule (start ?tcs (Run_init e r ?tcs)) = Some s"
    and fin: "finished s" and res: "res = (results s)\<lparr>Duration := Since e\<rparr>"
    by (metis Inr_inject)
  have inv: "pool_inv (runSingleTest e r) ?tcs s"
    using exec_inv[OF start_inv[OF Run_init_empty] ex] .
  have agg: "aggregated (Run_init e r ?tcs) (results s)"
    using exec_aggregated[OF _ ex] Run_init_aggregated by (simp add: start_def)
  from finished_results[OF inv fin] res
  show "mset (TestResults res) = mset (map (runSingleTest e r) ?tcs)" by simp
  from agg res show "Total res = int (length ?tcs)"
    and "Passed res = tally ''passed'' (TestResults res)"
    and "Failed res = tally ''failed'' (TestResults res)"
    and "Skipped res = tally ''skipped'' (TestResults res)"
    and "TotalCost res = sum_list (map trCost (TestResults res))"
    by (simp_all add: aggregated_def Run_init_def)
qed

lemma Run_statuses:
  assumes run: "Run e r order schedule = Inr res"
  shows "\<forall>t \<in> set (TestResults res). trStatus t = ''passed'' \<or> trStatus t = ''failed''"
proof -
  from Run_Inr[OF run] obtain pf where load: "loadPrompts e (cPrompts (config r)) [] = Inr pf"
    by metis
  from Run_results(1)[OF run load]
  have "set (TestResults res) = set (map (runSingleTest e r) (Run_cases r order pf))"
    by (metis set_mset_mset)
  then show ?thesis using runSingleTest_status by auto
qed

lemma Run_length:
  assumes run: "Run e r order schedule = Inr res"
  shows "Total res = int (length (TestResults res))"
proof -
  from Run_Inr[OF run] obtain pf where load: "loadPrompts e (cPrompts (config r)) [] = Inr pf"
    by metis
  from Run_results(1)[OF run load]
  have "length (TestResults res) = length (map (runSingleTest e r) (Run_cases r order pf))"
    by (metis size_mset)
  with Run_results(2)[OF run load] show ?thesis by simp
qed

text \<open>The concrete run, evaluated.\<close>

lemma ex_load: "loadPrompts ex_env (cPrompts (config ex_runner)) [] = Inr ex_prompts"
  by code_simp

lemma ex_cases: "Run_cases ex_runner (\<lambda>ks. ks) ex_prompts = [ex_case1, ex_case2]"
  by code_simp

lemma ex_run: "Run ex_env ex_runner (\<lambda>ks. ks) ex_schedule = Inr ex_results"
  by code_simp

lemma ex_result1_eq: "runSingleTest ex_env ex_runner ex_case1 = ex_result1"
  by code_simp

lemma ex_result2_eq: "runSingleTest ex_env ex_runner ex_case2 = ex_result2"
  by code_simp

subsection \<open>C1: the totals of a run\<close>



subsection \<open>C10: no test is skipped\<close>

text \<open>
  C10. \<^verbatim>\<open>runSingleTest\<close> sets the status to \<^verbatim>\<open>failed\<close> or \<^verbatim>\<open>passed\<close> and to nothing
  else, so in every result that \<^verbatim>\<open>Run\<close> returns \<^verbatim>\<open>Skipped\<close> is zero and \<^verbatim>\<open>Total\<close> is the
  sum of \<^verbatim>\<open>Passed\<close> and \<^verbatim>\<open>Failed\<close>.
\<close>

theorem never_skipped:
  assumes "Run e r order schedule = Inr res"
  shows "(\<forall>tc. trStatus (runSingleTest e r tc) = ''failed'' \<or> trStatus (runSingleTest e r tc) = ''passed'') \<and>
         Skipped res = 0 \<and> Total res = Passed res + Failed res"
proof -
  from Run_Inr[OF assms] obtain pf where load: "loadPrompts e (cPrompts (config r)) [] = Inr pf"
    by metis
  note r = Run_results[OF assms load]
  from tally_two[OF Run_statuses[OF assms]] r(3,4,5) Run_length[OF assms]
  have "Skipped res = 0 \<and> Total res = Passed res + Failed res" by simp
  with runSingleTest_status show ?thesis by blast
qed

theorem never_skipped_witness:
  "Run ex_env ex_runner (\<lambda>ks. ks) ex_schedule = Inr ex_results \<and>
   trStatus (runSingleTest ex_env ex_runner ex_case1) = ''passed'' \<and>
   trStatus (runSingleTest ex_env ex_runner ex_case2) = ''failed'' \<and>
   Skipped ex_results = 0 \<and> Total ex_results = Passed ex_results + Failed ex_results"
  using never_skipped[OF ex_run] ex_run ex_result1_eq ex_result2_eq
  by (simp add: ex_result1_def ex_result2_def)

subsection \<open>C3: a failing case does not abort the run\<close>

lemma start_measure: "pool_measure (start tcs res0) = 6 * length tcs + 1"
  by (simp add: pool_measure_def start_def)

lemma Run_from_finished:
  assumes load: "loadPrompts e (cPrompts (config r)) [] = Inr pf"
    and P: "0 \<le> Parallel (options r)"
    and ex: "exec (Parallel (options r)) (runSingleTest e r) schedule
           (start (Run_cases r order pf) (Run_init e r (Run_cases r order pf))) = Some s"
    and fin: "finished s"
  shows "Run e r order schedule = Inr ((results s)\<lparr>Duration := Since e\<rparr>)"
  using assms by (simp add: Run_def Run_cases_def Run_init_def Let_def)

lemma running_result_submitted:
  assumes "pool_inv run tcs s" and "tc \<in> set (running s)"
  shows "run tc \<in> set (map run tcs)"
proof -
  from assms(2) have "run tc \<in># mset (map run (running s))" by simp
  then have "run tc \<in># mset (map run (todo s)) + mset (map run (waiting s))
      + mset (map run (running s)) + mset (testResults s) + mset (TestResults (results s))"
    by simp
  with assms(1) have "run tc \<in># mset (map run tcs)" by (simp add: pool_inv_def)
  then show ?thesis by simp
qed

lemma run_goes_on:
  assumes load: "loadPrompts e (cPrompts (config r)) [] = Inr pf"
    and reach: "exec (Parallel (options r)) (runSingleTest e r) as
                  (start (Run_cases r order pf) (Run_init e r (Run_cases r order pf))) = Some s"
    and running: "tc \<in> set (running s)"
  shows "length as \<le> 6 * length (Run_cases r order pf) + 1 \<and>
         (\<forall>bs s'. exec (Parallel (options r)) (runSingleTest e r) bs s = Some s' \<longrightarrow>
             finished s' \<or> enabled (Parallel (options r)) s' \<noteq> []) \<and>
         (\<exists>bs res. Run e r order (as @ bs) = Inr res \<and>
                    runSingleTest e r tc \<in> set (TestResults res)) \<and>
         (\<forall>schedule res. Run e r order schedule = Inr res \<longrightarrow>
             mset (TestResults res) = mset (map (runSingleTest e r) (Run_cases r order pf)))"
proof -
  let ?P = "Parallel (options r)" and ?run = "runSingleTest e r"
  let ?tcs = "Run_cases r order pf"
  let ?s0 = "start ?tcs (Run_init e r ?tcs)"
  have inv: "pool_inv ?run ?tcs s"
    using exec_inv[OF start_inv[OF Run_init_empty] reach] .
  have "int (semaphore ?s0) \<le> max 0 ?P" by (simp add: start_def)
  from exec_sem_bound[OF this reach] have bound: "int (semaphore s) \<le> max 0 ?P" .
  from running have "running s \<noteq> []" by auto
  from running_needs_slot[OF inv bound this] have P: "1 \<le> ?P" .
  from exec_measure[OF reach] have len: "length as \<le> 6 * length ?tcs + 1"
    by (simp add: start_measure)
  have live: "finished s' \<or> enabled ?P s' \<noteq> []" if "exec ?P ?run bs s = Some s'" for bs s'
    using progress[OF exec_inv[OF inv that] _ P] by blast
  have each: "mset (TestResults res) = mset (map ?run ?tcs)"
    if "Run e r order schedule = Inr res" for schedule res
    using Run_results(1)[OF that load] .
  from reaches_finished[OF inv P] obtain bs s' where
    bs: "exec ?P ?run bs s = Some s'" and fin: "finished s'" by blast
  from reach bs have "exec ?P ?run (as @ bs) ?s0 = Some s'" by (simp add: exec_append)
  from Run_from_finished[OF load _ this fin] P
  obtain res where res: "Run e r order (as @ bs) = Inr res" by auto
  from each[OF res] running_result_submitted[OF inv running]
  have "?run tc \<in> set (TestResults res)" by (metis set_mset_mset)
  with res have returns: "\<exists>bs res. Run e r order (as @ bs) = Inr res \<and> ?run tc \<in> set (TestResults res)"
    by blast
  from len live returns each show ?thesis by blast
qed

text \<open>
  C3. When one of the five fallible steps of \<^verbatim>\<open>runSingleTest\<close> fails for a test case
  (loading or rendering the prompt, finding the provider, creating the client, or the
  completion), its result has the status \<^verbatim>\<open>failed\<close> and a non-empty \<^verbatim>\<open>Error\<close>, and no
  assertion was evaluated for it; a case has assertion results only behind a successful
  completion. And at any point of a run at which the failing case is inside
  \<^verbatim>\<open>runSingleTest\<close>, the run goes on: the interleaving is shorter than a bound, no state
  it reaches from there is stuck before the end, it can be continued to the return of
  \<^verbatim>\<open>Run\<close> with the result of the failing case among the results, and every result
  \<^verbatim>\<open>Run\<close> returns holds exactly the results of the submitted cases, one for each.
\<close>

theorem failed_case_does_not_abort:
  assumes fails: "completion e r tc = Inl err"
  shows "trStatus (runSingleTest e r tc) = ''failed'' \<and>
         trError (runSingleTest e r tc) = err \<and> err \<noteq> [] \<and>
         trAssertions (runSingleTest e r tc) = [] \<and>
         (\<forall>tc'. trAssertions (runSingleTest e r tc') \<noteq> [] \<longrightarrow>
                (\<exists>response. completion e r tc' = Inr response)) \<and>
         (\<forall>pf order as s.
            loadPrompts e (cPrompts (config r)) [] = Inr pf \<and>
            exec (Parallel (options r)) (runSingleTest e r) as
              (start (Run_cases r order pf) (Run_init e r (Run_cases r order pf))) = Some s \<and>
            tc \<in> set (running s) \<longrightarrow>
              length as \<le> 6 * length (Run_cases r order pf) + 1 \<and>
              (\<forall>bs s'. exec (Parallel (options r)) (runSingleTest e r) bs s = Some s' \<longrightarrow>
                  finished s' \<or> enabled (Parallel (options r)) s' \<noteq> []) \<and>
              (\<exists>bs res. Run e r order (as @ bs) = Inr res \<and>
                         runSingleTest e r tc \<in> set (TestResults res)) \<and>
              (\<forall>schedule res. Run e r order schedule = Inr res \<longrightarrow>
                  mset (TestResults res)
                    = mset (map (runSingleTest e r) (Run_cases r order pf))))"
proof -
  have one: "trStatus (runSingleTest e r tc) = ''failed'' \<and> trError (runSingleTest e r tc) = err \<and>
             err \<noteq> [] \<and> trAssertions (runSingleTest e r tc) = []"
    using runSingleTest_failed[OF fails] completion_nonempty[OF fails] by simp
  have only: "\<exists>response. completion e r tc' = Inr response"
    if "trAssertions (runSingleTest e r tc') \<noteq> []" for tc'
  proof (cases "completion e r tc'")
    case (Inl err')
    from runSingleTest_failed[OF this] that show ?thesis by simp
  next
    case (Inr response)
    then show ?thesis by blast
  qed
  from one only run_goes_on show ?thesis by blast
qed

theorem failed_case_does_not_abort_witness:
  "completion ex_env ex_runner ex_case2 = Inl ''Provider not found: provider not found: missing:model'' \<and>
   trStatus (runSingleTest ex_env ex_runner ex_case2) = ''failed'' \<and>
   trError (runSingleTest ex_env ex_runner ex_case2) = ''Provider not found: provider not found: missing:model'' \<and>
   trAssertions (runSingleTest ex_env ex_runner ex_case2) = [] \<and>
   loadPrompts ex_env (cPrompts (config ex_runner)) [] = Inr ex_prompts \<and>
   exec (Parallel (options ex_runner)) (runSingleTest ex_env ex_runner) [Spawn, Spawn, Acquire 1]
     (start (Run_cases ex_runner (\<lambda>ks. ks) ex_prompts)
        (Run_init ex_env ex_runner (Run_cases ex_runner (\<lambda>ks. ks) ex_prompts))) = Some ex_state \<and>
   ex_case2 \<in> set (running ex_state) \<and>
   (\<exists>bs res. Run ex_env ex_runner (\<lambda>ks. ks) ([Spawn, Spawn, Acquire 1] @ bs) = Inr res \<and>
              runSingleTest ex_env ex_runner ex_case2 \<in> set (TestResults res)) \<and>
   Run ex_env ex_runner (\<lambda>ks. ks) ex_schedule = Inr ex_results \<and>
   mset (TestResults ex_results)
     = mset (map (runSingleTest ex_env ex_runner) (Run_cases ex_runner (\<lambda>ks. ks) ex_prompts)) \<and>
   trStatus (runSingleTest ex_env ex_runner ex_case1) = ''passed''"
proof -
  have P: "Parallel (options ex_runner) = 1" by (simp add: ex_runner_def)
  have reach: "exec (Parallel (options ex_runner)) (runSingleTest ex_env ex_runner) [Spawn, Spawn, Acquire 1]
     (start (Run_cases ex_runner (\<lambda>ks. ks) ex_prompts)
        (Run_init ex_env ex_runner (Run_cases ex_runner (\<lambda>ks. ks) ex_prompts))) = Some ex_state"
    using ex_reach by (simp add: P ex_cases)
  have running: "ex_case2 \<in> set (running ex_state)" by (simp add: ex_state_def)
  have fails: "completion ex_env ex_runner ex_case2
                 = Inl ''Provider not found: provider not found: missing:model''"
    by code_simp
  note t = failed_case_does_not_abort[OF fails]
  from t have a: "trStatus (runSingleTest ex_env ex_runner ex_case2) = ''failed'' \<and>
   trError (runSingleTest ex_env ex_runner ex_case2) = ''Provider not found: provider not found: missing:model'' \<and>
   trAssertions (runSingleTest ex_env ex_runner ex_case2) = []" by blast
  from t ex_load reach running
  have b: "(\<exists>bs res. Run ex_env ex_runner (\<lambda>ks. ks) ([Spawn, Spawn, Acquire 1] @ bs) = Inr res \<and>
              runSingleTest ex_env ex_runner ex_case2 \<in> set (TestResults res))"
    and c: "\<forall>schedule res. Run ex_env ex_runner (\<lambda>ks. ks) schedule = Inr res \<longrightarrow>
                  mset (TestResults res)
                    = mset (map (runSingleTest ex_env ex_runner) (Run_cases ex_runner (\<lambda>ks. ks) ex_prompts))"
    by blast+
  from c ex_run have d: "mset (TestResults ex_results)
     = mset (map (runSingleTest ex_env ex_runner) (Run_cases ex_runner (\<lambda>ks. ks) ex_prompts))"
    by blast
  have p: "trStatus (runSingleTest ex_env ex_runner ex_case1) = ''passed''"
    by (simp add: ex_result1_eq ex_result1_def)
  from fails a ex_load reach running b ex_run d p show ?thesis by blast
qed

subsection \<open>Runs in which no case is executed\<close>

text \<open>
  A prompt that does not load when \<^verbatim>\<open>Run\<close> starts makes it return the error, before any
  case is made. And with \<^verbatim>\<open>Parallel\<close> at zero no goroutine ever gets a slot, so with a
  case to run \<^verbatim>\<open>Run\<close> does not return; below zero, making the semaphore panics.
\<close>

lemma Run_load_failure:
  "loadPrompts e (cPrompts (config r)) [] = Inl err \<Longrightarrow>
   Run e r order schedule = Inl (LoadFailed (''failed to load prompts: '' @ err))"
  by (simp add: Run_def)

lemma step_no_slot:
  assumes "running s = [] \<and> releasing s = 0 \<and> \<not> closed s \<and> testResults s = [] \<and>
           wg s = length (waiting s) \<and> todo s @ waiting s \<noteq> []"
    and "step 0 run a s = Some s'"
  shows "running s' = [] \<and> releasing s' = 0 \<and> \<not> closed s' \<and> testResults s' = [] \<and>
         wg s' = length (waiting s') \<and> todo s' @ waiting s' \<noteq> []"
  using assms by (cases a) (auto split: list.split_asm if_split_asm)

lemma exec_no_slot:
  assumes "running s = [] \<and> releasing s = 0 \<and> \<not> closed s \<and> testResults s = [] \<and>
           wg s = length (waiting s) \<and> todo s @ waiting s \<noteq> []"
    and "exec 0 run as s = Some s'"
  shows "\<not> finished s'"
  using assms
proof (induction as arbitrary: s)
  case Nil
  then show ?case by (simp add: finished_def)
next
  case (Cons a as)
  from Cons.prems(2) obtain s1 where s1: "step 0 run a s = Some s1" and rest: "exec 0 run as s1 = Some s'"
    by (auto split: option.split_asm)
  from Cons.IH[OF step_no_slot[OF Cons.prems(1) s1] rest] show ?case .
qed

lemma Run_without_slot:
  assumes load: "loadPrompts e (cPrompts (config r)) [] = Inr pf"
    and P: "Parallel (options r) \<le> 0"
    and cases: "Run_cases r order pf \<noteq> []"
  shows "Run e r order schedule = Inl (if Parallel (options r) < 0 then MakeChanPanic else NotReturned)"
proof (cases "Parallel (options r) < 0")
  case True
  with load show ?thesis by (simp add: Run_def Let_def)
next
  case False
  with P have P0: "Parallel (options r) = 0" by simp
  let ?tcs = "Run_cases r order pf"
  let ?s0 = "start ?tcs (Run_init e r ?tcs)"
  have "\<not> finished s'" if "exec 0 (runSingleTest e r) schedule ?s0 = Some s'" for s'
    using exec_no_slot[OF _ that] cases by (simp add: start_def)
  with load P0 show ?thesis
    by (auto simp: Run_def Let_def Run_cases_def Run_init_def split: option.splits)
qed

subsection \<open>C6: an unknown kind of assertion\<close>

lemma NewEvaluator_unknown:
  "t \<notin> set registered_kinds \<Longrightarrow> NewEvaluator t = UnsupportedEvaluator t"
  by (simp add: registered_kinds_def NewEvaluator_def)

lemma runAssertion_unknown:
  "aType a \<notin> set registered_kinds \<Longrightarrow>
   runAssertion e a response =
     AssertionResult0\<lparr>arType := aType a, arPassed := False,
       arMessage := ''Evaluation error: unsupported assertion type: '' @ aType a\<rparr>"
  by (simp add: runAssertion_def NewEvaluator_unknown)

text \<open>
  C6. An assertion whose kind is not registered evaluates to a result that has not
  passed and whose message ends with the kind. It is not dropped and the test goes on:
  when the completion of its test case succeeds, the case has one assertion result per
  assertion, the failing one among them, and the status \<^verbatim>\<open>failed\<close> with no error.
\<close>

theorem unknown_kind_fails:
  assumes unknown: "aType a \<notin> set registered_kinds"
  shows "NewEvaluator (aType a) = UnsupportedEvaluator (aType a) \<and>
         runAssertion e a response =
           AssertionResult0\<lparr>arType := aType a, arPassed := False,
             arMessage := ''Evaluation error: unsupported assertion type: '' @ aType a\<rparr> \<and>
         \<not> arPassed (runAssertion e a response) \<and>
         suffix (aType a) (arMessage (runAssertion e a response)) \<and>
         (\<forall>tc resp. completion e r tc = Inr resp \<and> a \<in> set (tAssert (tcTest tc)) \<longrightarrow>
            length (trAssertions (runSingleTest e r tc)) = length (tAssert (tcTest tc)) \<and>
            runAssertion e a resp \<in> set (trAssertions (runSingleTest e r tc)) \<and>
            trStatus (runSingleTest e r tc) = ''failed'' \<and> trError (runSingleTest e r tc) = [])"
proof -
  note ra = runAssertion_unknown[OF unknown]
  have inner: "length (trAssertions (runSingleTest e r tc)) = length (tAssert (tcTest tc)) \<and>
            runAssertion e a resp \<in> set (trAssertions (runSingleTest e r tc)) \<and>
            trStatus (runSingleTest e r tc) = ''failed'' \<and> trError (runSingleTest e r tc) = []"
    if c: "completion e r tc = Inr resp" and m: "a \<in> set (tAssert (tcTest tc))" for tc resp
  proof -
    have "\<not> arPassed (runAssertion e a resp)"
      by (simp add: ra AssertionResult0_def)
    with m have "\<not> list_all (\<lambda>a. arPassed (runAssertion e a resp)) (tAssert (tcTest tc))"
      unfolding list_all_iff by blast
    with m show ?thesis by (simp add: runSingleTest_completed[OF c])
  qed
  from NewEvaluator_unknown[OF unknown] ra inner show ?thesis
    by (simp add: AssertionResult0_def suffix_def)
qed

theorem unknown_kind_fails_witness:
  "aType ex_unknown \<notin> set registered_kinds \<and>
   runAssertion ex_env ex_unknown ex_response =
     \<lparr>arType = ''sentiment'', arExpected = ANil, arActual = ANil, arPassed = False, arScore = 0,
      arMessage = ''Evaluation error: unsupported assertion type: sentiment''\<rparr> \<and>
   completion ex_env ex_runner ex_case3 = Inr ex_response \<and>
   ex_unknown \<in> set (tAssert (tcTest ex_case3)) \<and>
   length (trAssertions (runSingleTest ex_env ex_runner ex_case3)) = 1 \<and>
   trStatus (runSingleTest ex_env ex_runner ex_case3) = ''failed''"
proof -
  have u: "aType ex_unknown \<notin> set registered_kinds"
    by (simp add: ex_unknown_def registered_kinds_def)
  have c: "completion ex_env ex_runner ex_case3 = Inr ex_response" by code_simp
  have m: "ex_unknown \<in> set (tAssert (tcTest ex_case3))"
    by (simp add: ex_case3_def)
  have l: "length (tAssert (tcTest ex_case3)) = 1" by (simp add: ex_case3_def)
  from unknown_kind_fails[OF u, of ex_env ex_response ex_runner] c m l u
  show ?thesis by (auto simp: AssertionResult0_def ex_unknown_def)
qed

subsection \<open>C7: name filters\<close>

text \<open>
  C7. \<^verbatim>\<open>filterTestCases\<close> returns every case it is given: its body is a comment saying
  that the filtering is still to be written. With the filter \<^verbatim>\<open>invoice\<close>, the two cases
  of the concrete run, \<^verbatim>\<open>json\<close> and \<^verbatim>\<open>a.prompt_test_1\<close>, whose names do not contain the
  filter, are both submitted and both in the result.
\<close>

theorem filter_keeps_every_case:
  "Filters (options ex_filter_runner) = [''invoice''] \<and>
   map tcName (submitted ex_filter_runner [''a.prompt'']) = [''json'', ''a.prompt_test_1''] \<and>
   \<not> Contains ''json'' ''invoice'' \<and> \<not> Contains ''a.prompt_test_1'' ''invoice'' \<and>
   Run ex_env ex_filter_runner (\<lambda>ks. ks) ex_schedule = Inr ex_results \<and>
   filterTestCases r testCases = testCases"
proof -
  have 1: "Filters (options ex_filter_runner) = [''invoice'']"
    by (simp add: ex_filter_runner_def)
  have 2: "map tcName (submitted ex_filter_runner [''a.prompt'']) = [''json'', ''a.prompt_test_1'']"
    by code_simp
  have 3: "\<not> Contains ''json'' ''invoice''" "\<not> Contains ''a.prompt_test_1'' ''invoice''"
    by simp_all
  have 4: "Run ex_env ex_filter_runner (\<lambda>ks. ks) ex_schedule = Inr ex_results"
    by code_simp
  from 1 2 3 4 show ?thesis by (simp add: filterTestCases_def)
qed

subsection \<open>C9: the comparison with a baseline\<close>

text \<open>
  C9. \<^verbatim>\<open>GenerateBaselineComparison\<close> writes the regression line exactly when the current
  results have more failed tests than the baseline, the improvement line exactly when
  they have fewer, and neither of them exactly when the numbers are equal. The report
  is a function of the two results (and of how \<^verbatim>\<open>fmt\<close> prints a float): the source
  reads no clock and no state.
\<close>

theorem baseline_classification:
  "(regression_mark \<in> set (comparison_writes e current baseline))
     = (Failed current > Failed baseline) \<and>
   (improvement_mark \<in> set (comparison_writes e current baseline))
     = (Failed current < Failed baseline) \<and>
   (regression_mark \<notin> set (comparison_writes e current baseline) \<and>
    improvement_mark \<notin> set (comparison_writes e current baseline))
     = (Failed current = Failed baseline) \<and>
   GenerateBaselineComparison e current baseline = concat (comparison_writes e current baseline)"
  by (auto simp: comparison_writes_def regression_mark_def improvement_mark_def
        GenerateBaselineComparison_def Let_def)

subsection \<open>C4: the relevance evaluator\<close>










subsection \<open>C8: the expansion into test cases\<close>

lemma tests_loop_eq:
  "tests_loop r p i ts = map (\<lambda>(j, t). make_case r p j t) (enumerate i ts)"
  by (induction ts arbitrary: i) auto

lemma generateTestCases_eq:
  "generateTestCases r keys =
     concat (map (\<lambda>p. map (\<lambda>(i, t). make_case r p i t) (enumerate 0 (cTests (config r)))) keys)"
  by (induction keys) (auto simp: tests_loop_eq)

lemma mset_concat_map_cong:
  "mset xs = mset ys \<Longrightarrow> mset (concat (map f xs)) = mset (concat (map f ys))"
proof -
  assume "mset xs = mset ys"
  then have "image_mset (\<lambda>x. mset (f x)) (mset xs) = image_mset (\<lambda>x. mset (f x)) (mset ys)"
    by simp
  then have "sum_mset (image_mset (\<lambda>x. mset (f x)) (mset xs))
             = sum_mset (image_mset (\<lambda>x. mset (f x)) (mset ys))"
    by simp
  then show ?thesis by (simp add: mset_concat sum_mset_sum_list[symmetric] comp_def)
qed

lemma loadPrompts_keys:
  "loadPrompts e ps acc = Inr pf \<Longrightarrow> distinct (map fst acc) \<Longrightarrow>
   distinct (map fst pf) \<and> set (map fst pf) = set (map fst acc) \<union> set ps"
proof (induction ps arbitrary: acc)
  case Nil
  then show ?case by simp
next
  case (Cons f fs)
  from Cons.prems(1) obtain prompt where l: "LoadFromFile e f = Inr prompt"
    and rest: "loadPrompts e fs (AList.update f prompt acc) = Inr pf"
    by (auto split: sum.splits)
  from Cons.prems(2) have "distinct (map fst (AList.update f prompt acc))"
    by (simp add: distinct_update)
  from Cons.IH[OF rest this] show ?case
    by (auto simp: dom_update)
qed

lemma generateTestCases_cross: "generateTestCases r keys = cross_product r keys"
  by (simp add: generateTestCases_eq cross_product_def)

text \<open>
  C8, as the code has it. Let the prompts load, and let \<open>keys\<close> be the order in which
  the range over the map of prompts yields its keys. The cases are the cross product of
  the keys, in that order, with the tests, in the order of their declaration. The keys
  are the distinct prompt files, so as a multiset the cases are those of the cross
  product of the distinct prompt files with the tests, which is the declared one when no
  file is listed twice. A test without a provider gets the first configured provider,
  a test without a name gets the prompt file, \<^verbatim>\<open>_test_\<close> and its index, and both are
  functions of the configuration alone.
\<close>

theorem expander_cases:
  assumes load: "loadPrompts e (cPrompts (config r)) [] = Inr promptFiles"
    and keys: "mset keys = mset (map fst promptFiles)"
  shows "generateTestCases r keys =
           concat (map (\<lambda>p. map (\<lambda>(i, t). make_case r p i t) (enumerate 0 (cTests (config r)))) keys) \<and>
         mset keys = mset (remdups (cPrompts (config r))) \<and>
         mset (generateTestCases r keys) = mset (cross_product r (remdups (cPrompts (config r)))) \<and>
         (distinct (cPrompts (config r)) \<longrightarrow>
            mset (generateTestCases r keys) = mset (declared_cases r)) \<and>
         (\<forall>p i t. tcProvider (make_case r p i t) =
            (if tProvider t = [] \<and> cProviders (config r) \<noteq> [] then pID (hd (cProviders (config r)))
             else tProvider t)) \<and>
         (\<forall>p i t. tcName (make_case r p i t) =
            (if tName t = [] then p @ ''_test_'' @ fmt_d (int i) else tName t)) \<and>
         (\<forall>p i t. tcPromptFile (make_case r p i t) = p \<and> tcTest (make_case r p i t) = t \<and>
                   tcVariables (make_case r p i t) = tVariables t)"
proof -
  from loadPrompts_keys[OF load] have d: "distinct (map fst promptFiles)"
    and s: "set (map fst promptFiles) = set (cPrompts (config r))" by simp_all
  from d s have "mset (map fst promptFiles) = mset (remdups (cPrompts (config r)))"
    by (metis distinct_remdups_id set_eq_iff_mset_remdups_eq)
  with keys have k: "mset keys = mset (remdups (cPrompts (config r)))" by simp
  have 2: "mset (generateTestCases r keys) = mset (cross_product r (remdups (cPrompts (config r))))"
    unfolding generateTestCases_cross cross_product_def by (rule mset_concat_map_cong[OF k])
  have 3: "mset (generateTestCases r keys) = mset (declared_cases r)"
    if "distinct (cPrompts (config r))"
    using 2 that by (simp add: declared_cases_def distinct_remdups_id)
  show ?thesis using generateTestCases_eq[of r keys] k 2 3
    by (simp add: make_case_def)
qed

text \<open>
  Two prompt files: the range can yield the second before the first, and then the list
  is not the declared one, and not the one of a rerun that yields them in the other
  order. One prompt file listed twice: the map has one key, and the cases are two and
  not four.
\<close>

lemma ex_load2: "loadPrompts ex_env2 (cPrompts (config ex_runner2)) [] = Inr [(''a.prompt'', \<lparr>prContent = ''Hello'', prMetadata = []\<rparr>), (''b.prompt'', \<lparr>prContent = ''Hello'', prMetadata = []\<rparr>)]"
  by code_simp

lemma ex_load_twice: "loadPrompts ex_env2 (cPrompts (config ex_runner_twice)) [] = Inr ex_prompts"
  by code_simp

lemma ex_names_ba:
  "map tcName (generateTestCases ex_runner2 [''b.prompt'', ''a.prompt''])
     = [''json'', ''b.prompt_test_1'', ''json'', ''a.prompt_test_1'']"
  by code_simp

lemma ex_names_ab:
  "map tcName (generateTestCases ex_runner2 [''a.prompt'', ''b.prompt''])
     = [''json'', ''a.prompt_test_1'', ''json'', ''b.prompt_test_1'']"
  by code_simp

lemma ex_names_declared:
  "map tcName (declared_cases ex_runner2)
     = [''json'', ''a.prompt_test_1'', ''json'', ''b.prompt_test_1'']"
  by code_simp

lemma ex_twice:
  "length (declared_cases ex_runner_twice) = 4" "length (generateTestCases ex_runner_twice [''a.prompt'']) = 2"
  by code_simp+

theorem expander_cases_witness:
  "loadPrompts ex_env2 (cPrompts (config ex_runner2)) []
     = Inr [(''a.prompt'', \<lparr>prContent = ''Hello'', prMetadata = []\<rparr>),
            (''b.prompt'', \<lparr>prContent = ''Hello'', prMetadata = []\<rparr>)] \<and>
   mset [''b.prompt'', ''a.prompt'']
     = mset (map fst [(''a.prompt'', \<lparr>prContent = ''Hello'', prMetadata = []\<rparr>),
                      (''b.prompt'', \<lparr>prContent = ''Hello'', prMetadata = []\<rparr>)]) \<and>
   distinct (cPrompts (config ex_runner2)) \<and>
   mset (generateTestCases ex_runner2 [''b.prompt'', ''a.prompt'']) = mset (declared_cases ex_runner2) \<and>
   map tcName (generateTestCases ex_runner2 [''b.prompt'', ''a.prompt''])
     = [''json'', ''b.prompt_test_1'', ''json'', ''a.prompt_test_1''] \<and>
   map tcProvider (generateTestCases ex_runner2 [''b.prompt'', ''a.prompt''])
     = [''ollama:llama2'', ''missing:model'', ''ollama:llama2'', ''missing:model'']"
proof -
  have k: "mset [''b.prompt'', ''a.prompt'']
     = mset (map fst [(''a.prompt'', \<lparr>prContent = ''Hello'', prMetadata = []\<rparr>),
                      (''b.prompt'', \<lparr>prContent = ''Hello'', prMetadata = []\<rparr>)])"
    by simp
  have d: "distinct (cPrompts (config ex_runner2))"
    by (simp add: ex_runner2_def)
  have p: "map tcProvider (generateTestCases ex_runner2 [''b.prompt'', ''a.prompt''])
     = [''ollama:llama2'', ''missing:model'', ''ollama:llama2'', ''missing:model'']"
    by code_simp
  from expander_cases[OF ex_load2 k] d
  have "mset (generateTestCases ex_runner2 [''b.prompt'', ''a.prompt'']) = mset (declared_cases ex_runner2)"
    by blast
  with ex_load2 k d ex_names_ba p show ?thesis by blast
qed

theorem expander_cases_counterexample:
  "loadPrompts ex_env2 (cPrompts (config ex_runner2)) []
     = Inr [(''a.prompt'', \<lparr>prContent = ''Hello'', prMetadata = []\<rparr>),
            (''b.prompt'', \<lparr>prContent = ''Hello'', prMetadata = []\<rparr>)] \<and>
   map tcName (generateTestCases ex_runner2 [''b.prompt'', ''a.prompt''])
     = [''json'', ''b.prompt_test_1'', ''json'', ''a.prompt_test_1''] \<and>
   map tcName (generateTestCases ex_runner2 [''a.prompt'', ''b.prompt''])
     = [''json'', ''a.prompt_test_1'', ''json'', ''b.prompt_test_1''] \<and>
   map tcName (declared_cases ex_runner2)
     = [''json'', ''a.prompt_test_1'', ''json'', ''b.prompt_test_1''] \<and>
   generateTestCases ex_runner2 [''b.prompt'', ''a.prompt''] \<noteq> declared_cases ex_runner2 \<and>
   loadPrompts ex_env2 (cPrompts (config ex_runner_twice)) [] = Inr ex_prompts \<and>
   map fst ex_prompts = [''a.prompt''] \<and>
   length (generateTestCases ex_runner_twice [''a.prompt'']) = 2 \<and>
   length (declared_cases ex_runner_twice) = 4"
proof -
  have "map tcName (generateTestCases ex_runner2 [''b.prompt'', ''a.prompt''])
          \<noteq> map tcName (declared_cases ex_runner2)"
    unfolding ex_names_ba ex_names_declared by simp
  then have "generateTestCases ex_runner2 [''b.prompt'', ''a.prompt''] \<noteq> declared_cases ex_runner2"
    by metis
  moreover have "map fst ex_prompts = [''a.prompt'']" by (simp add: ex_prompts_def)
  ultimately show ?thesis
    using ex_load2 ex_names_ba ex_names_ab ex_names_declared ex_load_twice ex_twice by blast
qed

subsection \<open>C5: the contains-json evaluator\<close>

lemma brace_depth_ge: "d \<le> brace_depth d s"
  by (induction s arbitrary: d) (auto simp: max_def le_Suc_eq dest: Suc_leD intro: order_trans)


















end
